theory Spec2Isabelle
  imports Complex_Main "HOL-Library.Word" "HOL-Library.Log_Nat"
begin

unbundle bit_operations_syntax

section \<open>Data model\<close>

text \<open>
  The pipeline works on numpy arrays of \<open>uint8\<close> holding one bit per element, and on
  \<open>bytes\<close> objects. Both are lists of 8-bit words here. Python raises where a list is
  read or written out of range, where a sequence is multiplied by a float, where a number
  does not fit the bytes or the float asked for, where a division is by zero, where a file
  to read does not exist, where a name is read that is not bound and where a float that is
  not a number is converted to an integer; each of these is a value of \<open>error\<close>.
\<close>

type_synonym uint8 = "8 word"

datatype error =
  IndexError | TypeError | OverflowError | ZeroDivisionError | FileNotFoundError
  | NameError | ValueError

definition getitem :: "'a list \<Rightarrow> nat \<Rightarrow> error + 'a" where
  "getitem xs i = (if i < length xs then Inr (xs ! i) else Inl IndexError)"

definition setitem :: "'a list \<Rightarrow> nat \<Rightarrow> 'a \<Rightarrow> error + 'a list" where
  "setitem xs i v = (if i < length xs then Inr (xs[i := v]) else Inl IndexError)"

text \<open>The statement \<open>dst[pos] = src[k]\<close>.\<close>

definition assign_item :: "'a list \<Rightarrow> nat \<Rightarrow> 'a list \<Rightarrow> nat \<Rightarrow> error + 'a list" where
  "assign_item dst pos src k =
     (case getitem src k of Inl e \<Rightarrow> Inl e | Inr v \<Rightarrow> setitem dst pos v)"

section \<open>Floating-point numbers\<close>

text \<open>
  Python's floats are IEEE doubles. A finite double is its real value here, and an
  operation on doubles is the exact operation followed by \<open>round_double\<close>: rounding to
  the nearest number with 53 significant bits, a tie going to the one whose last bit is
  even. \<open>round_even\<close> is that rounding to an integer. The range of the exponent is not
  part of \<open>round_double\<close>: an operation whose result can reach \<open>2 ^ 1024\<close> checks
  for it where it is used. Below \<open>2 ^ -1022\<close> a double has fewer bits than
  \<open>round_double\<close> keeps; the only float that can be so small is the progress that the
  batch loop prints, and its value is not used.
\<close>

definition round_even :: "real \<Rightarrow> int" where
  "round_even t =
     (if t - of_int \<lfloor>t\<rfloor> < 1 / 2 then \<lfloor>t\<rfloor>
      else if 1 / 2 < t - of_int \<lfloor>t\<rfloor> then \<lfloor>t\<rfloor> + 1
      else if even \<lfloor>t\<rfloor> then \<lfloor>t\<rfloor> else \<lfloor>t\<rfloor> + 1)"

definition round_double :: "real \<Rightarrow> real" where
  "round_double x =
     (if x = 0 then 0
      else let u = 2 powr (of_int \<lfloor>log 2 \<bar>x\<bar>\<rfloor> - 52)
           in u * of_int (round_even (x / u)))"

text \<open>
  \<open>math.log2\<close> of an integer: the integer is converted to a double and the C
  library's \<open>log2\<close> is applied to it, here the correctly rounded one, which returns the
  double nearest to the logarithm. The code calls it for integers from 1 on only.
  \<open>a + b\<close> on floats.
\<close>

definition math_log2 :: "nat \<Rightarrow> real" where
  "math_log2 x = round_double (log 2 (round_double (real x)))"

definition float_add :: "real \<Rightarrow> real \<Rightarrow> real" where
  "float_add a b = round_double (a + b)"

section \<open>The mixing engine (mibis_xor.py)\<close>

subsection \<open>\<open>MiBiSXOR._calculate_mixing_steps\<close>\<close>

text \<open>
  \<open>math.floor(math.log2(num_bits - 1) + 1)\<close>, computed in doubles as Python does; only
  the final \<open>math.floor\<close> is exact.
\<close>

definition calculate_mixing_steps :: "nat \<Rightarrow> nat" where
  "calculate_mixing_steps num_bits =
     (if num_bits \<le> 1 then 1
      else nat \<lfloor>float_add (math_log2 (num_bits - 1)) 1\<rfloor>)"

subsection \<open>\<open>MiBiSXOR._mix_bits\<close>\<close>

record mix_state =
  mixed_buffer :: "uint8 list"
  input_idx :: nat
  occupied_positions :: "nat list"

text \<open>
  The inner loop \<open>for i in range(len(occupied_positions) - 1)\<close>. It changes the buffer,
  the input index and \<open>new_positions\<close>; \<open>occupied_positions\<close> is only read. The test
  \<open>input_idx < len(input_bits) and mixed_buffer[middle_pos] == 0\<close> reads the buffer only
  when its first half holds.
\<close>

fun scan_pairs ::
  "uint8 list \<Rightarrow> nat list \<Rightarrow> nat list \<Rightarrow> uint8 list \<times> nat \<times> nat list
     \<Rightarrow> error + (uint8 list \<times> nat \<times> nat list)" where
  "scan_pairs input_bits occ [] st = Inr st"
| "scan_pairs input_bits occ (i # rest) (buf, idx, new_positions) =
     (case getitem occ i of Inl e \<Rightarrow> Inl e | Inr left_pos \<Rightarrow>
     (case getitem occ (i + 1) of Inl e \<Rightarrow> Inl e | Inr right_pos \<Rightarrow>
      let middle_pos = (left_pos + right_pos) div 2 in
      if idx < length input_bits then
        (case getitem buf middle_pos of Inl e \<Rightarrow> Inl e | Inr v \<Rightarrow>
         if v = 0 then
           (case assign_item buf middle_pos input_bits idx of Inl e \<Rightarrow> Inl e | Inr buf' \<Rightarrow>
            scan_pairs input_bits occ rest (buf', idx + 1, new_positions @ [middle_pos]))
         else scan_pairs input_bits occ rest (buf, idx, new_positions))
      else scan_pairs input_bits occ rest (buf, idx, new_positions)))"

text \<open>One pass of the body of \<open>for step in range(2, steps + 1)\<close>, up to the sort.\<close>

definition mix_round :: "uint8 list \<Rightarrow> mix_state \<Rightarrow> error + mix_state" where
  "mix_round input_bits st =
     (case scan_pairs input_bits (occupied_positions st)
             [0 ..< length (occupied_positions st) - 1]
             (mixed_buffer st, input_idx st, []) of
        Inl e \<Rightarrow> Inl e
      | Inr (buf', idx', new_positions) \<Rightarrow>
          Inr \<lparr>mixed_buffer = buf', input_idx = idx',
               occupied_positions = sort (occupied_positions st @ new_positions)\<rparr>)"

text \<open>The loop over \<open>step\<close>, with its \<open>break\<close> once all input bits are consumed.\<close>

function mix_loop :: "uint8 list \<Rightarrow> nat \<Rightarrow> nat \<Rightarrow> mix_state \<Rightarrow> error + mix_state" where
  "mix_loop input_bits steps step st =
     (if steps < step then Inr st
      else (case mix_round input_bits st of
              Inl e \<Rightarrow> Inl e
            | Inr st' \<Rightarrow>
                if length input_bits \<le> input_idx st' then Inr st'
                else mix_loop input_bits steps (step + 1) st'))"
  by pat_completeness auto
termination
  by (relation "measure (\<lambda>(input_bits, steps, step, st). steps + 1 - step)") auto

text \<open>
  The statements before the loop: the buffer of zeros with the first two input bits at
  its two ends (\<open>mixed_buffer[-1]\<close> is the last slot), \<open>input_idx = 2\<close> and the two ends
  as occupied positions.
\<close>

definition mix_init :: "uint8 list \<Rightarrow> nat \<Rightarrow> error + mix_state" where
  "mix_init input_bits buffer_size =
     (case (if 0 < length input_bits
            then assign_item (replicate buffer_size 0) 0 input_bits 0
            else Inr (replicate buffer_size 0)) of
        Inl e \<Rightarrow> Inl e
      | Inr buf0 \<Rightarrow>
     (case (if 1 < length input_bits
            then (if buf0 = [] then Inl IndexError
                  else assign_item buf0 (length buf0 - 1) input_bits 1)
            else Inr buf0) of
        Inl e \<Rightarrow> Inl e
      | Inr buf1 \<Rightarrow>
          Inr \<lparr>mixed_buffer = buf1, input_idx = 2,
               occupied_positions = [0, buffer_size - 1]\<rparr>))"

text \<open>
  \<open>steps\<close> is a natural number; for \<open>steps = 0\<close> Python computes \<open>2 ** (-1) + 1 = 1.5\<close>
  and \<open>[0] * 1.5\<close> raises TypeError.
\<close>

definition mix_bits :: "uint8 list \<Rightarrow> nat \<Rightarrow> error + uint8 list" where
  "mix_bits input_bits steps =
     (if steps = 0 then Inl TypeError
      else
        let buffer_size = 2 ^ (steps - 1) + 1 in
        if steps = 1 then
          (case (if 0 < length input_bits
                 then assign_item (replicate buffer_size 0) 0 input_bits 0
                 else Inr (replicate buffer_size 0)) of
             Inl e \<Rightarrow> Inl e
           | Inr buf0 \<Rightarrow>
               if 1 < length input_bits then assign_item buf0 1 input_bits 1
               else Inr buf0)
        else
          (case mix_init input_bits buffer_size of
             Inl e \<Rightarrow> Inl e
           | Inr st0 \<Rightarrow>
               (case mix_loop input_bits steps 2 st0 of
                  Inl e \<Rightarrow> Inl e
                | Inr st \<Rightarrow> Inr (mixed_buffer st))))"

text \<open>
  The states the loop of \<open>_mix_bits\<close> passes through, for \<open>steps > 1\<close>:
  \<open>mix_reach input_bits steps step st\<close> says that \<open>st\<close> is the state when the rounds
  before round \<open>step\<close> have run. The statements before the loop leave the state before
  round 2. Round \<open>step\<close> runs when \<open>step \<le> steps\<close> and the loop has not been left by
  \<open>break\<close>: it is the first round, or the round before left input bits unconsumed.
\<close>

inductive mix_reach :: "uint8 list \<Rightarrow> nat \<Rightarrow> nat \<Rightarrow> mix_state \<Rightarrow> bool"
  for input_bits :: "uint8 list" and steps :: nat where
  start: "mix_init input_bits (2 ^ (steps - 1) + 1) = Inr st \<Longrightarrow>
          mix_reach input_bits steps 2 st"
| round: "mix_reach input_bits steps step st \<Longrightarrow> step \<le> steps \<Longrightarrow>
          step = 2 \<or> input_idx st < length input_bits \<Longrightarrow>
          mix_round input_bits st = Inr st' \<Longrightarrow>
          mix_reach input_bits steps (step + 1) st'"

subsection \<open>\<open>MiBiSXOR._xor_adjacent_bits\<close>\<close>

text \<open>\<open>range(0, n, 2)\<close>.\<close>

definition range_step2 :: "nat \<Rightarrow> nat list" where
  "range_step2 n = map (\<lambda>k. 2 * k) [0 ..< (n + 1) div 2]"

fun xor_loop :: "uint8 list \<Rightarrow> nat list \<Rightarrow> uint8 list \<Rightarrow> error + uint8 list" where
  "xor_loop mixed_bits [] result = Inr result"
| "xor_loop mixed_bits (i # rest) result =
     (case getitem mixed_bits i of Inl e \<Rightarrow> Inl e | Inr a \<Rightarrow>
     (case getitem mixed_bits (i + 1) of Inl e \<Rightarrow> Inl e | Inr b \<Rightarrow>
      xor_loop mixed_bits rest (result @ [a XOR b])))"

definition xor_adjacent_bits :: "uint8 list \<Rightarrow> error + uint8 list" where
  "xor_adjacent_bits mixed_bits =
     xor_loop mixed_bits (range_step2 (length mixed_bits - 1)) []"

subsection \<open>Single and dual mixers, \<open>process_bits\<close>\<close>

definition process_with_single_mixer :: "uint8 list \<Rightarrow> error + uint8 list" where
  "process_with_single_mixer input_bits =
     (let num_bits = length input_bits;
          steps = calculate_mixing_steps num_bits in
      (case mix_bits input_bits steps of
         Inl e \<Rightarrow> Inl e
       | Inr mixed_bits \<Rightarrow> xor_adjacent_bits mixed_bits))"

definition process_with_dual_mixers :: "uint8 list \<Rightarrow> error + uint8 list" where
  "process_with_dual_mixers input_bits =
     (let midpoint = length input_bits div 2;
          bits1 = take midpoint input_bits;
          bits2 = drop midpoint input_bits;
          steps1 = calculate_mixing_steps (length bits1);
          steps2 = calculate_mixing_steps (length bits2) in
      (case mix_bits bits1 steps1 of Inl e \<Rightarrow> Inl e | Inr mixed1 \<Rightarrow>
      (case mix_bits bits2 steps2 of Inl e \<Rightarrow> Inl e | Inr mixed2 \<Rightarrow>
      (case xor_adjacent_bits mixed1 of Inl e \<Rightarrow> Inl e | Inr output1 \<Rightarrow>
      (case xor_adjacent_bits mixed2 of Inl e \<Rightarrow> Inl e | Inr output2 \<Rightarrow>
       Inr (output1 @ output2))))))"

definition process_bits :: "bool \<Rightarrow> uint8 list \<Rightarrow> nat option \<Rightarrow> error + uint8 list" where
  "process_bits use_dual_mixers input_bits max_bits =
     (let input_bits' =
            (case max_bits of
               None \<Rightarrow> input_bits
             | Some m \<Rightarrow> if m < length input_bits then take m input_bits else input_bits) in
      if use_dual_mixers then process_with_dual_mixers input_bits'
      else process_with_single_mixer input_bits')"

section \<open>Files of packed bits (file_operations.py)\<close>

text \<open>A file system maps a file name to the bytes of the file.\<close>

type_synonym filesystem = "string \<rightharpoonup> uint8 list"

subsection \<open>\<open>FileOperations.save_bits_to_file\<close>\<close>

text \<open>
  The loop \<open>for j in range(8): byte_val |= (bits[i * 8 + j] << (7 - j))\<close>, on 8-bit
  values as numpy computes it for \<open>uint8\<close>.
\<close>

fun pack_byte :: "uint8 list \<Rightarrow> nat \<Rightarrow> nat list \<Rightarrow> uint8 \<Rightarrow> error + uint8" where
  "pack_byte bits i [] byte_val = Inr byte_val"
| "pack_byte bits i (j # rest) byte_val =
     (case getitem bits (i * 8 + j) of
        Inl e \<Rightarrow> Inl e
      | Inr b \<Rightarrow> pack_byte bits i rest (byte_val OR push_bit (7 - j) b))"

text \<open>The loop \<open>for i in range(byte_count)\<close>.\<close>

fun pack_bytes :: "uint8 list \<Rightarrow> nat list \<Rightarrow> uint8 list \<Rightarrow> error + uint8 list" where
  "pack_bytes bits [] bytes_data = Inr bytes_data"
| "pack_bytes bits (i # rest) bytes_data =
     (case pack_byte bits i [0 ..< 8] 0 of
        Inl e \<Rightarrow> Inl e
      | Inr byte_val \<Rightarrow> pack_bytes bits rest (bytes_data @ [byte_val]))"

text \<open>
  The function rebinds \<open>bits\<close> to the padded array, so the \<open>len(bits)\<close> it returns
  is the length after padding. The result is the file system with the file written and
  the returned number.
\<close>

definition save_bits_to_file ::
  "filesystem \<Rightarrow> uint8 list \<Rightarrow> string \<Rightarrow> error + (filesystem \<times> nat)" where
  "save_bits_to_file fs bits filename =
     (let padding_bits = (8 - length bits mod 8) mod 8;
          bits' = (if 0 < padding_bits then bits @ replicate padding_bits 0 else bits);
          byte_count = length bits' div 8 in
      (case pack_bytes bits' [0 ..< byte_count] [] of
         Inl e \<Rightarrow> Inl e
       | Inr bytes_data \<Rightarrow> Inr (fs(filename \<mapsto> bytes_data), length bits')))"

subsection \<open>\<open>FileOperations.load_bits_from_file\<close>\<close>

text \<open>\<open>for i in range(7, -1, -1): bits.append((byte >> i) & 1)\<close>.\<close>

definition byte_to_bits :: "uint8 \<Rightarrow> uint8 list" where
  "byte_to_bits byte = map (\<lambda>i. drop_bit i byte AND 1) (rev [0 ..< 8])"

definition load_bits_from_file :: "filesystem \<Rightarrow> string \<Rightarrow> nat option \<Rightarrow> uint8 list" where
  "load_bits_from_file fs filename max_bits =
     (case fs filename of
        None \<Rightarrow> []
      | Some data \<Rightarrow>
          (let bits = concat (map byte_to_bits data) in
           (case max_bits of
              None \<Rightarrow> bits
            | Some m \<Rightarrow> if m < length bits then take m bits else bits)))"

section \<open>Whitening (main.py, \<open>TrngGenerator._generate_and_save_sha3\<close>)\<close>

text \<open>\<open>n.to_bytes(4, byteorder='big')\<close>, which raises OverflowError from \<open>2 ** 32\<close> on.\<close>

definition to_bytes4 :: "nat \<Rightarrow> error + uint8 list" where
  "to_bytes4 n =
     (if n < 2 ^ 32
      then Inr [word_of_nat (n div 2 ^ 24), word_of_nat (n div 2 ^ 16),
                word_of_nat (n div 2 ^ 8), word_of_nat n]
      else Inl OverflowError)"

text \<open>The slice \<open>xs[a:b]\<close> for \<open>0 \<le> a \<le> b\<close>.\<close>

definition slice :: "'a list \<Rightarrow> nat \<Rightarrow> nat \<Rightarrow> 'a list" where
  "slice xs a b = take (b - a) (drop a xs)"

text \<open>
  The names that main.py binds at module level: its imports (lines 1 to 9), \<open>logger\<close>,
  the class and the two functions. The statement \<open>import hashlib\<close> (line 87) stands in
  the body of \<open>generate\<close> and binds \<open>hashlib\<close> as a local name of that call; no
  statement binds it for the module. A function reads a name that it does not bind itself
  from the names of its module (no builtin is called \<open>hashlib\<close>) and raises NameError
  where it is not among them.
\<close>

definition module_names :: "string list" where
  "module_names =
     [''argparse'', ''logging'', ''np'', ''time'', ''os'', ''AudioCapture'', ''BitExtractor'',
      ''MiBiSXOR'', ''FileOperations'', ''logger'', ''TrngGenerator'', ''parse_arguments'',
      ''main'']"

definition load_global :: "string \<Rightarrow> error + unit" where
  "load_global name = (if name \<in> set module_names then Inr () else Inl NameError)"

text \<open>
  \<open>hashlib.sha3_256(d).digest()\<close> in \<open>_generate_and_save_sha3\<close>, which does not bind
  \<open>hashlib\<close>: the name is looked up first. \<open>sha3_256\<close> is the digest that the library
  computes, any function from bytes to bytes.
\<close>

definition hashlib_sha3_256 ::
  "(uint8 list \<Rightarrow> uint8 list) \<Rightarrow> uint8 list \<Rightarrow> error + uint8 list" where
  "hashlib_sha3_256 sha3_256 d =
     (case load_global ''hashlib'' of Inl e \<Rightarrow> Inl e | Inr u \<Rightarrow> Inr (sha3_256 d))"

text \<open>
  The first loop hashes the salted chunks of the file, the second the whole file with a
  running counter; both build the salt, then ask for the digest and append its bits, most
  significant bit of each byte first.
\<close>

fun hash_chunks ::
  "(uint8 list \<Rightarrow> uint8 list) \<Rightarrow> uint8 list \<Rightarrow> nat \<Rightarrow> nat list \<Rightarrow> uint8 list
     \<Rightarrow> error + uint8 list" where
  "hash_chunks sha3_256 data chunk_size [] all_sha3_bits = Inr all_sha3_bits"
| "hash_chunks sha3_256 data chunk_size (i # rest) all_sha3_bits =
     (let chunk = slice data (i * chunk_size) ((i + 1) * chunk_size) in
      (case to_bytes4 i of
         Inl e \<Rightarrow> Inl e
       | Inr salt \<Rightarrow>
           (case hashlib_sha3_256 sha3_256 (chunk @ salt) of
              Inl e \<Rightarrow> Inl e
            | Inr sha3_hash \<Rightarrow>
                hash_chunks sha3_256 data chunk_size rest
                  (all_sha3_bits @ concat (map byte_to_bits sha3_hash)))))"

fun hash_whole ::
  "(uint8 list \<Rightarrow> uint8 list) \<Rightarrow> uint8 list \<Rightarrow> nat \<Rightarrow> nat list \<Rightarrow> uint8 list
     \<Rightarrow> error + uint8 list" where
  "hash_whole sha3_256 data chunk_size [] all_sha3_bits = Inr all_sha3_bits"
| "hash_whole sha3_256 data chunk_size (i # rest) all_sha3_bits =
     (let offset = length data div chunk_size + i in
      (case to_bytes4 offset of
         Inl e \<Rightarrow> Inl e
       | Inr salt \<Rightarrow>
           (case hashlib_sha3_256 sha3_256 (data @ salt) of
              Inl e \<Rightarrow> Inl e
            | Inr sha3_hash \<Rightarrow>
                hash_whole sha3_256 data chunk_size rest
                  (all_sha3_bits @ concat (map byte_to_bits sha3_hash)))))"

text \<open>
  \<open>target_bits\<close> is a natural number. For \<open>target_bits = 0\<close> the first division
  is by \<open>min(0, 1000) = 0\<close> and raises ZeroDivisionError. The result is the file system
  with the output file written and the array returned.
\<close>

definition generate_and_save_sha3 ::
  "(uint8 list \<Rightarrow> uint8 list) \<Rightarrow> filesystem \<Rightarrow> string \<Rightarrow> string \<Rightarrow> nat
     \<Rightarrow> error + (filesystem \<times> uint8 list)" where
  "generate_and_save_sha3 sha3_256 fs input_file output_file target_bits =
     (case fs input_file of
        None \<Rightarrow> Inl FileNotFoundError
      | Some data \<Rightarrow>
          (let num_hashes_needed = (target_bits + 255) div 256 in
           if min num_hashes_needed 1000 = 0 then Inl ZeroDivisionError
           else
             (let chunk_size = max (length data div min num_hashes_needed 1000) 64;
                  n_chunks = min num_hashes_needed (length data div chunk_size) in
              (case hash_chunks sha3_256 data chunk_size [0 ..< n_chunks] [] of
                 Inl e \<Rightarrow> Inl e
               | Inr chunk_bits \<Rightarrow>
                   (let remaining_hashes = num_hashes_needed - n_chunks in
                    (case (if 0 < remaining_hashes
                           then hash_whole sha3_256 data chunk_size [0 ..< remaining_hashes]
                                  chunk_bits
                           else Inr chunk_bits) of
                       Inl e \<Rightarrow> Inl e
                     | Inr all_sha3_bits \<Rightarrow>
                         (let sha3_bits_array = take target_bits all_sha3_bits in
                          (case save_bits_to_file fs sha3_bits_array output_file of
                             Inl e \<Rightarrow> Inl e
                           | Inr (fs', n) \<Rightarrow> Inr (fs', sha3_bits_array)))))))))"

section \<open>The batch loop (main.py, \<open>TrngGenerator.generate\<close>)\<close>

subsection \<open>The floats of the loop\<close>

text \<open>
  A float that may be infinite or not a number. No float of the loop is negative:
  \<open>Infinity\<close> is the positive infinity. The result of an operation on finite floats is
  rounded, and it is \<open>Infinity\<close> where the rounded number reaches \<open>2 ^ 1024\<close>.
\<close>

datatype pyfloat = Finite real | Infinity | NaN

definition float_result :: "real \<Rightarrow> pyfloat" where
  "float_result x =
     (if 2 ^ 1024 \<le> round_double x then Infinity else Finite (round_double x))"

text \<open>
  \<open>a / b\<close> on integers: the quotient correctly rounded, OverflowError where it is too
  large for a float.
\<close>

definition int_truediv :: "nat \<Rightarrow> nat \<Rightarrow> error + pyfloat" where
  "int_truediv a b =
     (if b = 0 then Inl ZeroDivisionError
      else if 2 ^ 1024 \<le> round_double (real a / real b) then Inl OverflowError
      else Inr (Finite (round_double (real a / real b))))"

text \<open>
  \<open>a * c\<close> and \<open>a / c\<close> for a float \<open>a\<close> and a finite constant \<open>c > 0\<close>; an
  integer constant is converted to the float of the same value first.
\<close>

definition float_mul :: "pyfloat \<Rightarrow> real \<Rightarrow> pyfloat" where
  "float_mul a c =
     (case a of Finite x \<Rightarrow> float_result (x * c) | Infinity \<Rightarrow> Infinity | NaN \<Rightarrow> NaN)"

definition float_div :: "pyfloat \<Rightarrow> real \<Rightarrow> pyfloat" where
  "float_div a c =
     (case a of Finite x \<Rightarrow> float_result (x / c) | Infinity \<Rightarrow> Infinity | NaN \<Rightarrow> NaN)"

text \<open>\<open>int(a)\<close> for a float that is not negative.\<close>

definition float_to_int :: "pyfloat \<Rightarrow> error + nat" where
  "float_to_int a =
     (case a of
        Finite x \<Rightarrow> Inr (nat \<lfloor>x\<rfloor>)
      | Infinity \<Rightarrow> Inl OverflowError
      | NaN \<Rightarrow> Inl ValueError)"

subsection \<open>The capture\<close>

text \<open>\<open>capture_duration = bits_needed / 44100 * 1.5\<close> (main.py, line 63).\<close>

definition capture_duration :: "nat \<Rightarrow> error + pyfloat" where
  "capture_duration bits_needed =
     (case int_truediv bits_needed 44100 of
        Inl e \<Rightarrow> Inl e
      | Inr q \<Rightarrow> Inr (float_mul q (3 / 2)))"

text \<open>
  \<open>chunks_to_read = int(self.sample_rate * duration_seconds / self.chunk_size)\<close>
  (audio_capture.py, line 45), with the sample rate 44100 and the chunk size 1024 that
  \<open>TrngGenerator\<close> gives the capture.
\<close>

definition chunks_to_read :: "pyfloat \<Rightarrow> error + nat" where
  "chunks_to_read duration_seconds =
     float_to_int (float_div (float_mul duration_seconds 44100) 1024)"

subsection \<open>The loop\<close>

text \<open>
  The capture device and the bit extractor are outside the model: \<open>source k c\<close> is the
  array \<open>new_raw_bits\<close> that extraction returned in iteration \<open>k\<close>, when \<open>c\<close>
  chunks were asked of the device; it is any list of \<open>uint8\<close>. \<open>batch_size\<close> and
  \<open>target_bits\<close> are natural numbers.
\<close>

record gen_state =
  total_bits_generated :: nat
  all_raw_bits :: "uint8 list"
  all_processed_bits :: "uint8 list"
  iteration :: nat

definition gen_init :: gen_state where
  "gen_init = \<lparr>total_bits_generated = 0, all_raw_bits = [], all_processed_bits = [],
                iteration = 0\<rparr>"

text \<open>
  The body of the \<open>while\<close> loop. The progress in percent is only printed; its division
  is kept for what it may raise.
\<close>

definition generate_iteration ::
  "bool \<Rightarrow> nat \<Rightarrow> nat \<Rightarrow> (nat \<Rightarrow> nat \<Rightarrow> uint8 list) \<Rightarrow> gen_state
     \<Rightarrow> error + gen_state" where
  "generate_iteration use_dual_mixers batch_size target_bits source st =
     (let bits_needed = min batch_size (target_bits - total_bits_generated st) in
      (case capture_duration bits_needed of
         Inl e \<Rightarrow> Inl e
       | Inr duration \<Rightarrow>
           (case chunks_to_read duration of
              Inl e \<Rightarrow> Inl e
            | Inr chunks \<Rightarrow>
                (let new_raw_bits = source (iteration st) chunks in
                 (case process_bits use_dual_mixers new_raw_bits (Some (bits_needed * 2)) of
                    Inl e \<Rightarrow> Inl e
                  | Inr processed \<Rightarrow>
                      (let new_processed_bits = take bits_needed processed;
                           new_total = total_bits_generated st + length new_processed_bits in
                       (case int_truediv new_total target_bits of
                          Inl e \<Rightarrow> Inl e
                        | Inr progress \<Rightarrow>
                            Inr \<lparr>total_bits_generated = new_total,
                                 all_raw_bits = all_raw_bits st @ new_raw_bits,
                                 all_processed_bits =
                                   all_processed_bits st @ new_processed_bits,
                                 iteration = iteration st + 1\<rparr>)))))))"

text \<open>
  The loop \<open>while self.total_bits_generated < self.target_bits\<close>. It may run forever:
  \<open>None\<close> is the loop that never exits.
\<close>

partial_function (option) generate_loop ::
  "bool \<Rightarrow> nat \<Rightarrow> nat \<Rightarrow> (nat \<Rightarrow> nat \<Rightarrow> uint8 list) \<Rightarrow> gen_state
     \<Rightarrow> (error + gen_state) option"
  where
  "generate_loop use_dual_mixers batch_size target_bits source st =
     (if total_bits_generated st < target_bits then
        (case generate_iteration use_dual_mixers batch_size target_bits source st of
           Inl e \<Rightarrow> Some (Inl e)
         | Inr st' \<Rightarrow> generate_loop use_dual_mixers batch_size target_bits source st')
      else Some (Inr st))"


section \<open>Functions and predicates used in the proofs\<close>

text \<open>Every occupied position is a slot of the buffer.\<close>

definition mix_wf :: "mix_state \<Rightarrow> bool" where
  "mix_wf st = (set (occupied_positions st) \<subseteq> {..<length (mixed_buffer st)})"

text \<open>The byte that the inner loop of \<open>save_bits_to_file\<close> builds from bits \<open>8 i .. 8 i + 7\<close>.\<close>

definition packed_byte :: "uint8 list \<Rightarrow> nat \<Rightarrow> uint8" where
  "packed_byte bits i =
     fold (\<lambda>j a. a OR push_bit (7 - j) (bits ! (i * 8 + j))) [0 ..< 8] 0"

text \<open>
  The occupied positions while all rounds so far were complete: the multiples of \<open>g\<close> up
  to \<open>n * g\<close>; and the midpoints \<open>j * g + h\<close> of \<open>t\<close> gaps from gap \<open>k\<close> on.
\<close>

definition grid :: "nat \<Rightarrow> nat \<Rightarrow> nat list" where
  "grid g n = map (\<lambda>j. j * g) [0 ..< n + 1]"

definition mids :: "nat \<Rightarrow> nat \<Rightarrow> nat \<Rightarrow> nat \<Rightarrow> nat list" where
  "mids g h k t = map (\<lambda>j. j * g + h) [k ..< k + t]"

text \<open>
  The invariant of the loop of \<open>_mix_bits\<close> at the state before round \<open>step\<close>: the
  occupied positions are strictly increasing, lie in the buffer and contain both ends, every
  slot outside them is zero, and while input bits remain they form the grid of spacing
  \<open>2 ^ (steps + 1 - step)\<close>.
\<close>

definition mix_inv :: "uint8 list \<Rightarrow> nat \<Rightarrow> nat \<Rightarrow> mix_state \<Rightarrow> bool" where
  "mix_inv input_bits steps step st =
     (2 \<le> step \<and> step \<le> steps + 1
      \<and> length (mixed_buffer st) = 2 ^ (steps - 1) + 1
      \<and> sorted_wrt (<) (occupied_positions st)
      \<and> set (occupied_positions st) \<subseteq> {0 .. 2 ^ (steps - 1)}
      \<and> 0 \<in> set (occupied_positions st)
      \<and> 2 ^ (steps - 1) \<in> set (occupied_positions st)
      \<and> (\<forall>p < length (mixed_buffer st).
            p \<notin> set (occupied_positions st) \<longrightarrow> mixed_buffer st ! p = 0)
      \<and> (step = 2 \<or> input_idx st < length input_bits \<longrightarrow>
            occupied_positions st = grid (2 ^ (steps + 1 - step)) (2 ^ (step - 2))))"

section \<open>Rounding to doubles\<close>

lemma round_even_ge: "of_int j \<le> t \<Longrightarrow> j \<le> round_even t"
proof -
  assume "of_int j \<le> t"
  then have "j \<le> \<lfloor>t\<rfloor>" by (simp add: le_floor_iff)
  then show ?thesis unfolding round_even_def by auto
qed

lemma round_even_le: "t \<le> of_int j \<Longrightarrow> round_even t \<le> j"
proof -
  assume a: "t \<le> of_int j"
  have f: "\<lfloor>t\<rfloor> \<le> j" using a by linarith
  show ?thesis
  proof (cases "t = of_int j")
    case True
    then show ?thesis by (simp add: round_even_def)
  next
    case False
    with a have "t < of_int j" by simp
    then have "\<lfloor>t\<rfloor> < j" by (simp add: floor_less_iff)
    then show ?thesis unfolding round_even_def by auto
  qed
qed

lemma round_even_err: "\<bar>of_int (round_even t) - t\<bar> \<le> 1 / 2"
proof -
  have "of_int \<lfloor>t\<rfloor> \<le> t" "t < of_int \<lfloor>t\<rfloor> + 1" by linarith+
  then show ?thesis unfolding round_even_def by auto
qed


lemma binade:
  assumes "0 < x"
  shows "2 powr of_int \<lfloor>log 2 x\<rfloor> \<le> x" and "x < 2 powr (of_int \<lfloor>log 2 x\<rfloor> + 1)"
proof -
  have x: "2 powr log 2 x = x" using assms by simp
  have "of_int \<lfloor>log 2 x\<rfloor> \<le> log 2 x" by simp
  then have "2 powr of_int \<lfloor>log 2 x\<rfloor> \<le> 2 powr log 2 x" by (simp only: powr_le_cancel_iff) 
  then show "2 powr of_int \<lfloor>log 2 x\<rfloor> \<le> x" by (simp only: x)
  have "log 2 x < of_int \<lfloor>log 2 x\<rfloor> + 1" by linarith
  then have "2 powr log 2 x < 2 powr (of_int \<lfloor>log 2 x\<rfloor> + 1)" by (simp only: powr_less_cancel_iff)
  then show "x < 2 powr (of_int \<lfloor>log 2 x\<rfloor> + 1)" by (simp only: x)
qed

lemma round_double_pos:
  assumes "0 < x"
  shows "round_double x =
           2 powr (of_int \<lfloor>log 2 x\<rfloor> - 52) *
             of_int (round_even (x / 2 powr (of_int \<lfloor>log 2 x\<rfloor> - 52)))"
  using assms by (simp add: round_double_def Let_def)

lemma powr_nat_int: "0 \<le> i \<Longrightarrow> 2 powr of_int i = (2::real) ^ nat i"
proof -
  assume "0 \<le> i"
  then have "of_int i = real (nat i)" by simp
  then show ?thesis by (simp only: powr_realpow[of 2, simplified])
qed

text \<open>Rounding goes at least to the lower end of the binade.\<close>

lemma round_double_ge_binade:
  assumes "0 < x"
  shows "2 powr of_int \<lfloor>log 2 x\<rfloor> \<le> round_double x"
proof -
  define e where "e = \<lfloor>log 2 x\<rfloor>"
  define u :: real where "u = 2 powr (of_int e - 52)"
  have u: "0 < u" by (simp add: u_def)
  have pe: "2 powr of_int e = u * 2 ^ 52"
    by (simp add: u_def powr_diff)
  from binade(1)[OF assms] have "u * 2 ^ 52 \<le> x" by (simp add: e_def[symmetric] pe)
  then have "of_int (2 ^ 52) \<le> x / u" using u by (simp add: pos_le_divide_eq mult.commute)
  then have "(2 ^ 52 :: int) \<le> round_even (x / u)" by (rule round_even_ge)
  then have "(2 ^ 52 :: real) \<le> of_int (round_even (x / u))"
    by (metis of_int_le_iff of_int_numeral of_int_power)
  then have "u * 2 ^ 52 \<le> u * of_int (round_even (x / u))"
    using u by (simp only: mult_le_cancel_left_pos)
  then show ?thesis
    unfolding round_double_pos[OF assms] e_def[symmetric] u_def[symmetric] pe .
qed

lemma round_double_nonneg: "0 \<le> x \<Longrightarrow> 0 \<le> round_double x"
proof (cases "x = 0")
  case True
  then show ?thesis by (simp add: round_double_def)
next
  case False
  assume "0 \<le> x"
  with False have "0 < x" by simp
  from round_double_ge_binade[OF this] show ?thesis
    by (meson order_trans powr_ge_zero)
qed


lemma log2_ge: "0 < x \<Longrightarrow> 2 ^ k \<le> x \<Longrightarrow> real k \<le> log 2 x"
  by (simp add: le_log_iff powr_realpow)


lemma log2_less: "0 < x \<Longrightarrow> x < 2 ^ k \<Longrightarrow> log 2 x < real k"
  by (simp add: log_less_iff powr_realpow)

lemma round_double_ge_pow2:
  assumes "2 ^ k \<le> x"
  shows "2 ^ k \<le> round_double x"
proof -
  have pos: "0 < x" using assms by (meson less_le_trans zero_less_numeral zero_less_power)
  have "real k \<le> log 2 x" using pos assms by (rule log2_ge)
  then have "int k \<le> \<lfloor>log 2 x\<rfloor>" by (simp add: le_floor_iff)
  then have "real k \<le> of_int \<lfloor>log 2 x\<rfloor>" by linarith
  then have "2 powr real k \<le> 2 powr of_int \<lfloor>log 2 x\<rfloor>" by (simp only: powr_le_cancel_iff)
  then have "(2::real) ^ k \<le> 2 powr of_int \<lfloor>log 2 x\<rfloor>" by (simp add: powr_realpow)
  with round_double_ge_binade[OF pos] show ?thesis by linarith
qed


text \<open>Below \<open>2 ^ 53\<close> every natural number is a double, so rounding does not cross it.\<close>

lemma unit_divides:
  assumes "0 < x" and "x < 2 ^ 53"
  shows "\<exists>N::nat. 0 < N \<and> 2 powr (of_int \<lfloor>log 2 x\<rfloor> - 52) = 1 / real N"
proof -
  have "log 2 x < real 53" using assms by (rule log2_less)
  then have "\<lfloor>log 2 x\<rfloor> < 53" by (simp add: floor_less_iff)
  then have e: "\<lfloor>log 2 x\<rfloor> \<le> 52" by simp
  define d where "d = nat (52 - \<lfloor>log 2 x\<rfloor>)"
  have d: "of_int \<lfloor>log 2 x\<rfloor> - 52 = - real d" using e by (simp add: d_def)
  have "2 powr (of_int \<lfloor>log 2 x\<rfloor> - 52) = 1 / real (2 ^ d)"
    unfolding d by (simp add: powr_minus powr_realpow inverse_eq_divide)
  moreover have "0 < (2::nat) ^ d" by simp
  ultimately show ?thesis by blast
qed

lemma round_double_ge_nat:
  assumes "real m \<le> x" and "m \<le> 2 ^ 53"
  shows "real m \<le> round_double x"
proof (cases "m = 0")
  case True
  with assms(1) show ?thesis by (simp add: round_double_nonneg)
next
  case False
  with assms(1) have pos: "0 < x" by simp
  show ?thesis
  proof (cases "x < 2 ^ 53")
    case False
    then have "2 ^ 53 \<le> round_double x" by (intro round_double_ge_pow2) simp
    moreover have "real m \<le> 2 ^ 53" using assms(2)
      by (metis of_nat_le_iff of_nat_numeral of_nat_power)
    ultimately show ?thesis by linarith
  next
    case True
    from unit_divides[OF pos True] obtain N :: nat where
      N: "0 < N" "2 powr (of_int \<lfloor>log 2 x\<rfloor> - 52) = 1 / real N" by blast
    have "of_int (int (m * N)) \<le> x / (1 / real N)"
      using assms(1) N(1) by (simp add: mult_right_mono)
    then have "int (m * N) \<le> round_even (x / (1 / real N))" by (rule round_even_ge)
    then have "real (m * N) \<le> of_int (round_even (x / (1 / real N)))" by linarith
    then have "real m * real N \<le> of_int (round_even (x / (1 / real N)))" by simp
    then have "real m \<le> 1 / real N * of_int (round_even (x / (1 / real N)))"
      using N(1) by (simp add: pos_le_divide_eq)
    then show ?thesis unfolding round_double_pos[OF pos] N(2) .
  qed
qed

lemma round_double_le_nat:
  assumes "0 \<le> x" and "x \<le> real m" and "m < 2 ^ 53"
  shows "round_double x \<le> real m"
proof (cases "x = 0")
  case True
  then show ?thesis by (simp add: round_double_def)
next
  case False
  with assms(1) have pos: "0 < x" by simp
  have "real m < 2 ^ 53" using assms(3)
    by (metis of_nat_less_iff of_nat_numeral of_nat_power)
  with assms(2) have lt: "x < 2 ^ 53" by linarith
  from unit_divides[OF pos lt] obtain N :: nat where
    N: "0 < N" "2 powr (of_int \<lfloor>log 2 x\<rfloor> - 52) = 1 / real N" by blast
  have "x / (1 / real N) \<le> of_int (int (m * N))"
    using assms(2) N(1) by (simp add: mult_right_mono)
  then have "round_even (x / (1 / real N)) \<le> int (m * N)" by (rule round_even_le)
  then have "of_int (round_even (x / (1 / real N))) \<le> real (m * N)" by linarith
  then have "of_int (round_even (x / (1 / real N))) \<le> real m * real N" by simp
  then have "1 / real N * of_int (round_even (x / (1 / real N))) \<le> real m"
    using N(1) by (simp add: pos_divide_le_eq)
  then show ?thesis unfolding round_double_pos[OF pos] N(2) .
qed

lemma round_double_of_nat:
  assumes "m < 2 ^ 53"
  shows "round_double (real m) = real m"
proof -
  have "round_double (real m) \<le> real m"
    by (rule round_double_le_nat[OF _ _ assms]) simp_all
  moreover have "real m \<le> round_double (real m)"
    by (rule round_double_ge_nat) (use assms in simp_all)
  ultimately show ?thesis by simp
qed

text \<open>Below 64 the spacing of doubles is at most \<open>2 ^ -47\<close>.\<close>

lemma round_double_err:
  assumes "0 \<le> x" and "x < 64"
  shows "\<bar>round_double x - x\<bar> \<le> 1 / 2 ^ 48"
proof (cases "x = 0")
  case True
  then show ?thesis by (simp add: round_double_def)
next
  case False
  with assms(1) have pos: "0 < x" by simp
  define u :: real where "u = 2 powr (of_int \<lfloor>log 2 x\<rfloor> - 52)"
  have u: "0 < u" by (simp add: u_def)
  have "x < 2 ^ 6" using assms(2) by simp
  with pos have "log 2 x < real 6" by (rule log2_less)
  then have "\<lfloor>log 2 x\<rfloor> < 6" by (simp add: floor_less_iff)
  then have "\<lfloor>log 2 x\<rfloor> \<le> 5" by simp
  then have "of_int \<lfloor>log 2 x\<rfloor> - 52 \<le> (- 47 :: real)" by linarith
  then have "u \<le> 2 powr (- 47)" unfolding u_def by (simp only: powr_le_cancel_iff)
  also have "2 powr (- 47) = 1 / (2::real) ^ 47"
    using powr_realpow[of 2 47] by (simp add: powr_minus inverse_eq_divide)
  finally have ub: "u \<le> 1 / 2 ^ 47" .
  have "u * of_int (round_even (x / u)) - x = u * (of_int (round_even (x / u)) - x / u)"
    using u by (simp add: right_diff_distrib)
  then have "\<bar>u * of_int (round_even (x / u)) - x\<bar> =
             u * \<bar>of_int (round_even (x / u)) - x / u\<bar>"
    using u by (simp only: abs_mult abs_of_pos)
  also have "\<dots> \<le> u * (1 / 2)"
    using u round_even_err[of "x / u"] by (simp only: mult_le_cancel_left_pos)
  also have "\<dots> \<le> 1 / 2 ^ 47 * (1 / 2)" using ub by simp
  finally show ?thesis unfolding round_double_pos[OF pos] u_def[symmetric] by simp
qed

text \<open>Rounding commutes with a power of two as factor.\<close>

lemma round_double_scale: "round_double (x * 2 ^ k) = round_double x * 2 ^ k"
proof (cases "x = 0")
  case True
  then show ?thesis by (simp add: round_double_def)
next
  case False
  then have ax: "0 < \<bar>x\<bar>" by simp
  have "log 2 \<bar>x * 2 ^ k\<bar> = log 2 (\<bar>x\<bar> * 2 ^ k)" by (simp add: abs_mult)
  also have "\<dots> = log 2 \<bar>x\<bar> + log 2 (2 ^ k)" using ax by (subst log_mult) simp_all
  also have "log 2 ((2::real) ^ k) = real k" by (rule log_pow_cancel) simp_all
  finally have fl: "\<lfloor>log 2 \<bar>x * 2 ^ k\<bar>\<rfloor> = \<lfloor>log 2 \<bar>x\<bar>\<rfloor> + int k" by simp
  have "(2::real) powr (of_int (\<lfloor>log 2 \<bar>x\<bar>\<rfloor> + int k) - 52) =
          2 powr ((of_int \<lfloor>log 2 \<bar>x\<bar>\<rfloor> - 52) + real k)"
    by (simp add: algebra_simps)
  also have "\<dots> = 2 powr (of_int \<lfloor>log 2 \<bar>x\<bar>\<rfloor> - 52) * 2 powr real k"
    by (rule powr_add)
  also have "(2::real) powr real k = 2 ^ k" by (rule powr_realpow) simp
  finally have u: "(2::real) powr (of_int \<lfloor>log 2 \<bar>x * 2 ^ k\<bar>\<rfloor> - 52) =
                2 powr (of_int \<lfloor>log 2 \<bar>x\<bar>\<rfloor> - 52) * 2 ^ k"
    unfolding fl .
  have nz: "x * 2 ^ k \<noteq> 0" using False by simp
  show ?thesis
    unfolding round_double_def Let_def u using False nz by simp
qed


lemma round_double_ge_scaled:
  assumes "real m * 2 ^ k \<le> x" and "m \<le> 2 ^ 53"
  shows "real m * 2 ^ k \<le> round_double x"
proof -
  have "real m \<le> x / 2 ^ k" using assms(1) by (simp add: field_simps)
  then have "real m \<le> round_double (x / 2 ^ k)" using assms(2)
    by (rule round_double_ge_nat)
  then have "real m * 2 ^ k \<le> round_double (x / 2 ^ k) * 2 ^ k" by simp
  moreover have "round_double (x / 2 ^ k * 2 ^ k) = round_double (x / 2 ^ k) * 2 ^ k"
    by (rule round_double_scale)
  ultimately show ?thesis by simp
qed

section \<open>Mixing steps\<close>

text \<open>
  Below \<open>2 ^ 49\<close> input bits the doubles give the exact value,
  \<open>floor(log2(n - 1)) + 1\<close>.
\<close>

lemma steps_lower:
  assumes "2 ^ k \<le> x" and "k < 2 ^ 53"
  shows "real (k + 1) \<le> float_add (math_log2 x) 1"
proof -
  have "(2::real) ^ k \<le> real x" using assms(1)
    by (metis of_nat_le_iff of_nat_numeral of_nat_power)
  then have r: "2 ^ k \<le> round_double (real x)" by (rule round_double_ge_pow2)
  then have pos: "0 < round_double (real x)"
    by (meson less_le_trans zero_less_numeral zero_less_power)
  from pos r have "real k \<le> log 2 (round_double (real x))" by (rule log2_ge)
  then have "real k \<le> math_log2 x"
    unfolding math_log2_def using assms(2) by (intro round_double_ge_nat) simp_all
  then have "real (k + 1) \<le> math_log2 x + 1" by simp
  then show ?thesis
    unfolding float_add_def using assms(2) by (intro round_double_ge_nat) simp_all
qed

lemma log2_pred_pow2:
  "log 2 (2 ^ Suc k - 1) \<le> real (Suc k) - 1 / 2 ^ Suc k"
proof -
  define t :: real where "t = 1 / 2 ^ Suc k"
  have t: "0 < t" "t \<le> 1 / 2"
  proof -
    show "0 < t" by (simp add: t_def)
    have "(2::real) ^ 1 \<le> 2 ^ Suc k" by (intro power_increasing) simp_all
    then show "t \<le> 1 / 2" by (simp add: t_def field_simps)
  qed
  have f: "(2::real) ^ Suc k - 1 = 2 ^ Suc k * (1 - t)" by (simp add: t_def field_simps)
  have "ln (1 - t) \<le> (1 - t) - 1" using t by (intro ln_le_minus_one) simp
  then have l: "ln (1 - t) \<le> - t" by simp
  have ln2: "0 < ln (2::real)" "ln (2::real) < 1" using ln_2_less_1 by simp_all
  have "log 2 (1 - t) = ln (1 - t) / ln 2" by (simp add: log_def)
  also have "\<dots> \<le> - t / ln 2" using divide_right_mono[OF l, of "ln 2"] ln2(1) by simp
  also have "\<dots> \<le> - t"
  proof -
    have "t * ln 2 \<le> t * 1" using t(1) ln2(2) by (intro mult_left_mono) simp_all
    then have "t \<le> t / ln 2" using ln2(1) by (simp add: pos_le_divide_eq)
    then show ?thesis by simp
  qed
  finally have b: "log 2 (1 - t) \<le> - t" .
  have "log 2 (2 ^ Suc k * (1 - t)) = log 2 (2 ^ Suc k) + log 2 (1 - t)"
    using t by (subst log_mult) simp_all
  also have "log 2 ((2::real) ^ Suc k) = real (Suc k)" by (rule log_pow_cancel) simp_all
  finally show ?thesis using b unfolding f t_def by linarith
qed

lemma steps_upper:
  assumes "1 \<le> x" and "x < 2 ^ Suc k" and "Suc k \<le> 40"
  shows "float_add (math_log2 x) 1 < real (Suc k) + 1"
proof -
  have "(2::nat) ^ Suc k \<le> 2 ^ 40" using assms(3) by (intro power_increasing) simp_all
  with assms(2) have "x < 2 ^ 53" by simp
  then have ex: "round_double (real x) = real x" by (rule round_double_of_nat)
  have xle: "real x \<le> 2 ^ Suc k - 1"
  proof -
    from assms(2) have "x + 1 \<le> 2 ^ Suc k" by simp
    then have "real (x + 1) \<le> real (2 ^ Suc k)" by (simp only: of_nat_le_iff)
    then show ?thesis by simp
  qed
  have xpos: "0 < real x" using assms(1) by simp
  have "log 2 (real x) \<le> log 2 (2 ^ Suc k - 1)" using xle xpos by simp
  with log2_pred_pow2[of k] have L: "log 2 (real x) \<le> real (Suc k) - 1 / 2 ^ Suc k" by linarith
  have p: "1 / (2::real) ^ 40 \<le> 1 / 2 ^ Suc k"
  proof -
    have "(2::real) ^ Suc k \<le> 2 ^ 40" using assms(3) by (intro power_increasing) simp_all
    then show ?thesis by (simp add: field_simps)
  qed
  have k40: "real (Suc k) \<le> 40" using assms(3) by simp
  have L0: "0 \<le> log 2 (real x)" using assms(1) by simp
  have "0 < 1 / (2::real) ^ Suc k" by simp
  with L k40 have L64: "log 2 (real x) < 64" by linarith
  from round_double_err[OF L0 L64]
  have r: "math_log2 x \<le> log 2 (real x) + 1 / 2 ^ 48"
    unfolding math_log2_def ex by linarith
  have r0: "0 \<le> math_log2 x" unfolding math_log2_def ex using L0 by (rule round_double_nonneg)
  have y0: "0 \<le> math_log2 x + 1" using r0 by simp
  have y: "math_log2 x + 1 \<le> real (Suc k) + 1 - 1 / 2 ^ 40 + 1 / 2 ^ 48"
    using r L p by linarith
  then have y64: "math_log2 x + 1 < 64" using k40 by simp
  from round_double_err[OF y0 y64]
  have "float_add (math_log2 x) 1 \<le> math_log2 x + 1 + 1 / 2 ^ 48"
    unfolding float_add_def by linarith
  with y have "float_add (math_log2 x) 1 \<le> real (Suc k) + 1 - 1 / 2 ^ 40 + 1 / 2 ^ 48 + 1 / 2 ^ 48"
    by linarith
  then show ?thesis by simp
qed

text \<open>
  From \<open>2 ^ 32\<close> on the logarithm lies between 32 and 64, where the doubles are the
  multiples of \<open>2 ^ -47\<close>: a logarithm more than \<open>2 ^ -48\<close> below an integer is
  rounded to a double below that integer, and adding 1 to it is exact.
\<close>

lemma round_double_le_fraction:
  assumes "0 \<le> x" and "x \<le> real m / 2 ^ k" and "m < 2 ^ 53"
  shows "round_double x \<le> real m / 2 ^ k"
proof -
  have "0 \<le> x * 2 ^ k" using assms(1) by simp
  moreover have "x * 2 ^ k \<le> real m" using assms(2) by (simp add: field_simps)
  ultimately have "round_double (x * 2 ^ k) \<le> real m" using assms(3)
    by (rule round_double_le_nat)
  then have "round_double x * 2 ^ k \<le> real m" by (simp only: round_double_scale)
  then show ?thesis by (simp add: field_simps)
qed

lemma round_even_le_half:
  assumes "t < of_int j + 1 / 2"
  shows "round_even t \<le> j"
proof (cases "\<lfloor>t\<rfloor> < j")
  case True
  have "round_even t \<le> \<lfloor>t\<rfloor> + 1" by (simp add: round_even_def)
  with True show ?thesis by simp
next
  case False
  from assms have "t < of_int (j + 1)" by simp
  then have "\<lfloor>t\<rfloor> < j + 1" by (simp only: floor_less_iff)
  with False have f: "\<lfloor>t\<rfloor> = j" by simp
  with assms have "t - of_int \<lfloor>t\<rfloor> < 1 / 2" by simp
  then show ?thesis by (simp add: round_even_def f)
qed

lemma log2_one_minus:
  assumes "0 < t" and "t < 1"
  shows "log 2 (1 - t) < - t"
proof -
  have "ln (1 - t) \<le> (1 - t) - 1" using assms by (intro ln_le_minus_one) simp
  then have l: "ln (1 - t) \<le> - t" by simp
  have ln2: "0 < ln (2::real)" "ln (2::real) < 1" using ln_2_less_1 by simp_all
  have "log 2 (1 - t) = ln (1 - t) / ln 2" by (simp add: log_def)
  also have "\<dots> \<le> - t / ln 2" using divide_right_mono[OF l, of "ln 2"] ln2(1) by simp
  also have "\<dots> < - t"
  proof -
    have "t * ln 2 < t * 1" using assms(1) ln2(2) by (intro mult_strict_left_mono) simp_all
    then have "t < t / ln 2" using ln2(1) by (simp add: pos_less_divide_eq)
    then show ?thesis by simp
  qed
  finally show ?thesis .
qed

lemma round_below_integer:
  assumes "32 \<le> L" and "L < real K - 1 / 2 ^ 48" and "K \<le> 49"
  shows "round_double L \<le> real K - 1 / 2 ^ 47"
proof -
  have pos: "0 < L" using assms(1) by simp
  have "L < 64" using assms(2,3) by simp
  have "real 5 \<le> log 2 L" using pos assms(1) by (intro log2_ge) simp_all
  moreover have "log 2 L < real 6" using pos \<open>L < 64\<close> by (intro log2_less) simp_all
  ultimately have e: "\<lfloor>log 2 L\<rfloor> = 5" by (intro floor_unique) simp_all
  have u: "2 powr (of_int \<lfloor>log 2 L\<rfloor> - 52) = 1 / (2::real) ^ 47"
    unfolding e using powr_realpow[of 2 47] by (simp add: powr_minus inverse_eq_divide)
  have "L * 2 ^ 47 < (real K - 1 / 2 ^ 48) * 2 ^ 47"
    using assms(2) by (intro mult_strict_right_mono) simp_all
  also have "\<dots> = of_int (int K * 2 ^ 47 - 1) + 1 / 2" by (simp add: algebra_simps)
  finally have "round_even (L / (1 / 2 ^ 47)) \<le> int K * 2 ^ 47 - 1"
    by (intro round_even_le_half) simp
  then have "(of_int (round_even (L / (1 / 2 ^ 47))) :: real) \<le> of_int (int K * 2 ^ 47 - 1)"
    by (simp only: of_int_le_iff)
  then have "1 / 2 ^ 47 * (of_int (round_even (L / (1 / 2 ^ 47))) :: real) \<le>
             1 / 2 ^ 47 * of_int (int K * 2 ^ 47 - 1)"
    by (intro mult_left_mono) simp_all
  also have "\<dots> = real K - 1 / 2 ^ 47" by (simp add: algebra_simps)
  finally show ?thesis unfolding round_double_pos[OF pos] u .
qed

lemma steps_upper_large:
  assumes "2 ^ 32 \<le> x" and "real x \<le> 2 ^ K * (1 - 1 / 2 ^ 48)" and "K \<le> 49"
  shows "float_add (math_log2 x) 1 < real K + 1"
proof -
  have x32: "(2::real) ^ 32 \<le> real x" using assms(1)
    by (metis of_nat_le_iff of_nat_numeral of_nat_power)
  then have xpos: "0 < real x" by simp
  have "(2::real) ^ K \<le> 2 ^ 49" using assms(3) by (intro power_increasing) simp_all
  then have "(2::real) ^ K * (1 - 1 / 2 ^ 48) \<le> 2 ^ 49 * (1 - 1 / 2 ^ 48)"
    by (intro mult_right_mono) simp_all
  with assms(2) have "real x < 2 ^ 53" by simp
  then have "real x < real (2 ^ 53)" by simp
  then have "x < 2 ^ 53" by (simp only: of_nat_less_iff)
  then have ex: "round_double (real x) = real x" by (rule round_double_of_nat)
  have L32: "32 \<le> log 2 (real x)" using log2_ge[OF xpos x32] by simp
  have "log 2 (real x) \<le> log 2 (2 ^ K * (1 - 1 / 2 ^ 48))" using assms(2) xpos by simp
  also have "\<dots> = log 2 (2 ^ K) + log 2 (1 - 1 / 2 ^ 48)"
    by (subst log_mult) simp_all
  also have "log 2 ((2::real) ^ K) = real K" by (rule log_pow_cancel) simp_all
  also have "real K + log 2 (1 - 1 / 2 ^ 48) < real K + - (1 / 2 ^ 48)"
    using log2_one_minus[of "1 / 2 ^ 48"] by simp
  finally have L: "log 2 (real x) < real K - 1 / 2 ^ 48" by simp
  from round_below_integer[OF L32 L assms(3)]
  have a: "math_log2 x \<le> real K - 1 / 2 ^ 47" unfolding math_log2_def ex .
  have a0: "0 \<le> math_log2 x" unfolding math_log2_def ex using L32
    by (intro round_double_nonneg) simp
  have "math_log2 x + 1 \<le> real ((K + 1) * 2 ^ 47 - 1) / 2 ^ 47"
  proof -
    have "(1::nat) \<le> (K + 1) * 2 ^ 47" by simp
    then have "real ((K + 1) * 2 ^ 47 - 1) = real ((K + 1) * 2 ^ 47) - 1"
      by (simp only: of_nat_diff of_nat_1)
    also have "\<dots> = (real K + 1) * 2 ^ 47 - 1" by simp
    finally have "real ((K + 1) * 2 ^ 47 - 1) / 2 ^ 47 = real K + 1 - 1 / 2 ^ 47"
      by (simp add: field_simps)
    with a show ?thesis by simp
  qed
  moreover have "(K + 1) * 2 ^ 47 - 1 < (2 ^ 53 :: nat)"
  proof -
    have "(K + 1) * 2 ^ 47 \<le> 50 * (2 ^ 47 :: nat)" using assms(3) by simp
    then show ?thesis by simp
  qed
  moreover have "0 \<le> math_log2 x + 1" using a0 by simp
  ultimately have "float_add (math_log2 x) 1 \<le> real ((K + 1) * 2 ^ 47 - 1) / 2 ^ 47"
    unfolding float_add_def by (intro round_double_le_fraction)
  also have "\<dots> < real K + 1"
  proof -
    have "real ((K + 1) * 2 ^ 47 - 1) < real ((K + 1) * 2 ^ 47)"
      by (simp only: of_nat_less_iff) simp
    then have "real ((K + 1) * 2 ^ 47 - 1) / 2 ^ 47 < real ((K + 1) * 2 ^ 47) / 2 ^ 47"
      by (intro divide_strict_right_mono) simp_all
    then show ?thesis by simp
  qed
  finally show ?thesis .
qed

lemma calculate_mixing_steps_small:
  assumes "n < 2 ^ 49"
  shows "calculate_mixing_steps n = (if n \<le> 1 then 1 else floorlog 2 (n - 1))"
proof (cases "n \<le> 1")
  case True
  then show ?thesis by (simp add: calculate_mixing_steps_def)
next
  case False
  define x where "x = n - 1"
  have x: "1 \<le> x" "x + 2 \<le> 2 ^ 49" using False assms by (simp_all add: x_def)
  then have pos: "0 < x" by simp
  define k where "k = floorlog 2 x - 1"
  have fl: "floorlog 2 x = Suc k" using pos by (simp add: k_def floorlog_def)
  from floorlog_bounds[OF pos, of 2] have b: "2 ^ k \<le> x" "x < 2 ^ Suc k"
    by (simp_all add: fl)
  have "floorlog 2 x \<le> 49" using x(2) by (intro floorlog_leI) simp_all
  then have k49: "Suc k \<le> 49" by (simp add: fl)
  then have "k < 2 ^ 53" by simp
  from steps_lower[OF b(1) this] have lo: "real (Suc k) \<le> float_add (math_log2 x) 1" by simp
  have hi: "float_add (math_log2 x) 1 < real (Suc k) + 1"
  proof (cases "Suc k \<le> 40")
    case True
    from steps_upper[OF x(1) b(2) True] show ?thesis .
  next
    case False
    then have "32 \<le> k" by simp
    then have "(2::nat) ^ 32 \<le> 2 ^ k" by (intro power_increasing) simp_all
    with b(1) have x32: "2 ^ 32 \<le> x" by simp
    have "real x \<le> 2 ^ Suc k * (1 - 1 / 2 ^ 48)"
    proof (cases "Suc k \<le> 48")
      case True
      then have "(2::real) ^ Suc k \<le> 2 ^ 48" by (intro power_increasing) simp_all
      then have "(2::real) ^ Suc k / 2 ^ 48 \<le> 1" by simp
      moreover from b(2) have "x + 1 \<le> 2 ^ Suc k" by simp
      then have "real (x + 1) \<le> real (2 ^ Suc k)" by (simp only: of_nat_le_iff)
      then have "real x \<le> 2 ^ Suc k - 1" by simp
      ultimately have "real x \<le> 2 ^ Suc k - 2 ^ Suc k / 2 ^ 48" by linarith
      then show ?thesis by (simp only: right_diff_distrib mult_1_right times_divide_eq_right)
    next
      case False
      with k49 have k: "Suc k = 49" by simp
      from x(2) have "real (x + 2) \<le> real (2 ^ 49)" by (simp only: of_nat_le_iff)
      then have "real x \<le> 2 ^ 49 - 2" by simp
      also have "\<dots> = 2 ^ 49 * (1 - 1 / 2 ^ 48)" by simp
      finally show ?thesis unfolding k .
    qed
    from steps_upper_large[OF x32 this k49] show ?thesis .
  qed
  have "\<lfloor>float_add (math_log2 x) 1\<rfloor> = int (Suc k)"
    using lo hi by (intro floor_unique) simp_all
  then have st: "nat \<lfloor>float_add (math_log2 x) 1\<rfloor> = Suc k" by simp
  show ?thesis
    unfolding calculate_mixing_steps_def x_def[symmetric] using False st fl by simp
qed

lemma mixing_steps_pos: "0 < calculate_mixing_steps n"
proof (cases "n \<le> 1")
  case True
  then show ?thesis by (simp add: calculate_mixing_steps_def)
next
  case False
  then have "2 ^ 0 \<le> n - 1" by simp
  from steps_lower[OF this] have "1 \<le> float_add (math_log2 (n - 1)) 1" by simp
  with False show ?thesis by (simp add: calculate_mixing_steps_def)
qed

lemma mixing_steps_ge_two:
  assumes "3 \<le> n"
  shows "2 \<le> calculate_mixing_steps n"
proof -
  from assms have "2 ^ 1 \<le> n - 1" by simp
  from steps_lower[OF this] have "real 2 \<le> float_add (math_log2 (n - 1)) 1" by simp
  then have "2 \<le> nat \<lfloor>float_add (math_log2 (n - 1)) 1\<rfloor>" by (rule le_nat_floor)
  with assms show ?thesis by (simp add: calculate_mixing_steps_def)
qed

text \<open>
  At \<open>2 ^ 49\<close> input bits the doubles give one step more than the exact value: the
  logarithm of \<open>2 ^ 49 - 1\<close> is nearer to 49 than to the double below 49, so
  \<open>math.log2\<close> returns 49 and the input gets 50 steps.
\<close>

lemma round_even_near:
  assumes "\<bar>t - of_int j\<bar> < 1 / 2"
  shows "round_even t = j"
proof (cases "of_int j \<le> t")
  case True
  with assms have "\<lfloor>t\<rfloor> = j" by (intro floor_unique) (simp_all add: abs_less_iff)
  with assms True show ?thesis by (simp add: round_even_def abs_less_iff)
next
  case False
  with assms have "\<lfloor>t\<rfloor> = j - 1" by (intro floor_unique) (simp_all add: abs_less_iff)
  with assms False show ?thesis by (simp add: round_even_def abs_less_iff)
qed

lemma ln2_lower: "3 / 5 < ln (2::real)"
proof -
  have "exp (3/5 :: real) ^ 5 = exp (real 5 * (3/5))" by (simp only: exp_of_nat_mult)
  also have "\<dots> = exp (real 3 * 1)" by simp
  also have "\<dots> = exp 1 ^ 3" by (simp only: exp_of_nat_mult)
  also have "\<dots> \<le> 3 ^ 3" by (intro power_mono exp_le) simp
  also have "\<dots> < (2::real) ^ 5" by simp
  finally have "exp (3/5 :: real) < 2" by (rule power_less_imp_less_base) simp
  then have "ln (exp (3/5 :: real)) < ln 2" by (simp only: ln_less_cancel_iff exp_gt_zero zero_less_numeral)
  then show ?thesis by simp
qed


lemma log2_near_49:
  shows "49 - 1 / 2 ^ 48 < log 2 (2 ^ 49 - 1)"
    and "log 2 (2 ^ 49 - 1) < (49::real)"
proof -
  define t :: real where "t = 1 / 2 ^ 49"
  have t: "0 < t" "t \<le> 1 / 2" "t < 1 / 10" by (simp_all add: t_def)
  have f: "(2::real) ^ 49 - 1 = 2 ^ 49 * (1 - t)" by (simp add: t_def)
  have ln2: "0 < ln (2::real)" by simp
  have "log 2 (2 ^ 49 * (1 - t)) = log 2 (2 ^ 49) + log 2 (1 - t)"
    using t by (subst log_mult) simp_all
  also have "log 2 ((2::real) ^ 49) = real 49" by (rule log_pow_cancel) simp_all
  finally have L: "log 2 (2 ^ 49 - 1) = 49 + log 2 (1 - t)" unfolding f by simp
  have "ln (1 - t) < 0" using t by (intro ln_less_zero) simp_all
  then have "log 2 (1 - t) < 0" using ln2 by (simp add: log_def divide_neg_pos)
  then show "log 2 (2 ^ 49 - 1) < (49::real)" unfolding L by simp
  have lb: "- t - 2 * t\<^sup>2 \<le> ln (1 - t)"
    using t by (intro ln_one_minus_pos_lower_bound) simp_all
  have "t * t < t * (1 / 10)" using t by (intro mult_strict_left_mono) simp_all
  then have "t + 2 * t\<^sup>2 < t * (6 / 5)" by (simp add: power2_eq_square)
  also have "t * (6 / 5) < t * (2 * ln 2)" using t(1) ln2_lower by (intro mult_strict_left_mono) simp_all
  finally have "- (2 * t) * ln 2 < - t - 2 * t\<^sup>2" by simp
  with lb have "- (2 * t) * ln 2 < ln (1 - t)" by linarith
  then have "- (2 * t) < ln (1 - t) / ln 2" using ln2 by (simp add: pos_less_divide_eq)
  then have "- (2 * t) < log 2 (1 - t)" by (simp add: log_def)
  moreover have "2 * t = 1 / 2 ^ 48" by (simp add: t_def)
  ultimately show "49 - 1 / 2 ^ 48 < log 2 (2 ^ 49 - 1)" unfolding L by linarith
qed

lemma math_log2_rounds_up: "math_log2 (2 ^ 49 - 1) = 49"
proof -
  define L :: real where "L = log 2 (2 ^ 49 - 1)"
  have Lb: "49 - 1 / 2 ^ 48 < L" "L < 49"
    unfolding L_def by (rule log2_near_49(1), rule log2_near_49(2))
  have "(2 ^ 49 - 1 :: nat) < 2 ^ 53" by simp
  then have "round_double (real (2 ^ 49 - 1 :: nat)) = real (2 ^ 49 - 1 :: nat)"
    by (rule round_double_of_nat)
  moreover have "real (2 ^ 49 - 1 :: nat) = 2 ^ 49 - 1" by simp
  ultimately have m: "math_log2 (2 ^ 49 - 1) = round_double L"
    by (simp only: math_log2_def L_def)
  have pos: "0 < L" using Lb(1) by simp
  have "real 5 \<le> log 2 L" using pos Lb(1) by (intro log2_ge) simp_all
  moreover have "log 2 L < real 6" using pos Lb(2) by (intro log2_less) simp_all
  ultimately have e: "\<lfloor>log 2 L\<rfloor> = 5" by (intro floor_unique) simp_all
  have u: "2 powr (of_int \<lfloor>log 2 L\<rfloor> - 52) = 1 / (2::real) ^ 47"
    unfolding e using powr_realpow[of 2 47] by (simp add: powr_minus inverse_eq_divide)
  have "\<bar>L / (1 / 2 ^ 47) - of_int (49 * 2 ^ 47)\<bar> = (49 - L) * 2 ^ 47"
    using Lb(2) by (simp add: algebra_simps)
  also have "\<dots> < 1 / 2 ^ 48 * 2 ^ 47" using Lb(1) by (intro mult_strict_right_mono) simp_all
  also have "\<dots> = 1 / 2" by simp
  finally have "round_even (L / (1 / 2 ^ 47)) = 49 * 2 ^ 47" by (rule round_even_near)
  then have "round_double L = 49"
    unfolding round_double_pos[OF pos] u by simp
  with m show ?thesis by simp
qed

lemma mixing_steps_double_rounding: "calculate_mixing_steps (2 ^ 49) = 50"
proof -
  have "float_add 49 1 = round_double (real 50)" by (simp add: float_add_def)
  also have "\<dots> = real 50" by (rule round_double_of_nat) simp
  finally have fa: "float_add 49 1 = 50" by simp
  have "calculate_mixing_steps (2 ^ 49) =
          nat \<lfloor>float_add (math_log2 (2 ^ 49 - 1)) 1\<rfloor>"
    by (simp add: calculate_mixing_steps_def)
  also have "\<dots> = 50" unfolding math_log2_rounds_up fa by simp
  finally show ?thesis .
qed

section \<open>Mixing and compression never raise\<close>

lemma scan_pairs_total:
  assumes "\<forall>i\<in>set idxs. i + 1 < length occ" and "set occ \<subseteq> {..<length buf}"
  shows "\<exists>buf' idx' newp'.
           scan_pairs input_bits occ idxs (buf, idx, newp) = Inr (buf', idx', newp')
           \<and> length buf' = length buf
           \<and> set newp' \<subseteq> set newp \<union> {..<length buf}"
  using assms
proof (induction idxs arbitrary: buf idx newp)
  case Nil
  then show ?case by auto
next
  case (Cons i rest)
  let ?l = "occ ! i" and ?r = "occ ! (i + 1)"
  let ?mid = "(?l + ?r) div 2"
  from Cons.prems have i: "i < length occ" "i + 1 < length occ" by auto
  with Cons.prems(2) have "?l < length buf" "?r < length buf"
    using nth_mem by blast+
  then have mid: "?mid < length buf" by linarith
  have rest: "\<forall>i\<in>set rest. i + 1 < length occ" using Cons.prems(1) by simp
  show ?case
  proof (cases "idx < length input_bits \<and> buf ! ?mid = 0")
    case True
    let ?buf = "buf[?mid := input_bits ! idx]"
    have occ': "set occ \<subseteq> {..<length ?buf}" using Cons.prems(2) by simp
    from Cons.IH[OF rest occ', of "idx + 1" "newp @ [?mid]"]
    obtain buf' idx' newp' where
      r: "scan_pairs input_bits occ rest (?buf, idx + 1, newp @ [?mid]) = Inr (buf', idx', newp')"
         "length buf' = length ?buf" "set newp' \<subseteq> set (newp @ [?mid]) \<union> {..<length ?buf}"
      by blast
    from r(3) mid have "set newp' \<subseteq> set newp \<union> {..<length buf}" by auto
    with True i mid r(1,2) show ?thesis
      by (simp add: Let_def getitem_def setitem_def assign_item_def)
  next
    case False
    from Cons.IH[OF rest Cons.prems(2), of idx newp]
    obtain buf' idx' newp' where
      r: "scan_pairs input_bits occ rest (buf, idx, newp) = Inr (buf', idx', newp')"
         "length buf' = length buf" "set newp' \<subseteq> set newp \<union> {..<length buf}"
      by blast
    with False i mid show ?thesis
      by (auto simp add: Let_def getitem_def setitem_def assign_item_def)
  qed
qed

lemma mix_round_total:
  assumes "mix_wf st"
  shows "\<exists>st'. mix_round input_bits st = Inr st' \<and> mix_wf st'
               \<and> length (mixed_buffer st') = length (mixed_buffer st)"
proof -
  let ?occ = "occupied_positions st"
  have "\<forall>i\<in>set [0 ..< length ?occ - 1]. i + 1 < length ?occ" by auto
  from scan_pairs_total[OF this, of "mixed_buffer st" input_bits "input_idx st" "[]"] assms
  obtain buf' idx' newp' where
    r: "scan_pairs input_bits ?occ [0 ..< length ?occ - 1] (mixed_buffer st, input_idx st, [])
          = Inr (buf', idx', newp')"
       "length buf' = length (mixed_buffer st)" "set newp' \<subseteq> {..<length (mixed_buffer st)}"
    by (auto simp: mix_wf_def)
  with assms show ?thesis
    by (simp add: mix_round_def mix_wf_def)
qed

lemma mix_loop_total:
  assumes "mix_wf st"
  shows "\<exists>st'. mix_loop input_bits steps step st = Inr st'
               \<and> length (mixed_buffer st') = length (mixed_buffer st)"
  using assms
proof (induction input_bits steps step st rule: mix_loop.induct)
  case (1 input_bits steps step st)
  show ?case
  proof (cases "steps < step")
    case True
    then show ?thesis by simp
  next
    case False
    from mix_round_total[OF "1.prems", of input_bits]
    obtain st1 where st1: "mix_round input_bits st = Inr st1" "mix_wf st1"
      "length (mixed_buffer st1) = length (mixed_buffer st)" by blast
    show ?thesis
    proof (cases "length input_bits \<le> input_idx st1")
      case True
      with False st1 show ?thesis by simp
    next
      case nb: False
      from "1.IH"[OF False st1(1) nb st1(2)] st1 False nb show ?thesis by simp
    qed
  qed
qed

lemma mix_init_total:
  assumes "0 < buffer_size"
  shows "\<exists>st. mix_init input_bits buffer_size = Inr st
              \<and> length (mixed_buffer st) = buffer_size
              \<and> input_idx st = 2
              \<and> occupied_positions st = [0, buffer_size - 1]"
  using assms
  by (simp add: mix_init_def assign_item_def getitem_def setitem_def)

lemma mix_bits_total:
  assumes "0 < steps"
  shows "\<exists>buf. mix_bits input_bits steps = Inr buf \<and> length buf = 2 ^ (steps - 1) + 1"
proof (cases "steps = 1")
  case True
  then show ?thesis
    by (simp add: mix_bits_def assign_item_def getitem_def setitem_def)
next
  case False
  let ?m = "2 ^ (steps - 1) + 1 :: nat"
  from mix_init_total[of ?m input_bits]
  obtain st0 where st0: "mix_init input_bits ?m = Inr st0" "length (mixed_buffer st0) = ?m"
    "occupied_positions st0 = [0, ?m - 1]" by auto
  then have "mix_wf st0" by (simp add: mix_wf_def)
  from mix_loop_total[OF this, of input_bits steps 2]
  obtain st where "mix_loop input_bits steps 2 st0 = Inr st"
    "length (mixed_buffer st) = length (mixed_buffer st0)" by blast
  with st0 False assms show ?thesis
    by (simp add: mix_bits_def Let_def)
qed

lemma xor_loop_total:
  assumes "\<forall>i\<in>set idxs. i + 1 < length mixed_bits"
  shows "xor_loop mixed_bits idxs result =
           Inr (result @ map (\<lambda>i. mixed_bits ! i XOR mixed_bits ! (i + 1)) idxs)"
  using assms
  by (induction idxs arbitrary: result) (auto simp: getitem_def)

lemma xor_adjacent_bits_eq:
  "xor_adjacent_bits mixed_bits =
     Inr (map (\<lambda>k. mixed_bits ! (2 * k) XOR mixed_bits ! (2 * k + 1))
            [0 ..< length mixed_bits div 2])"
proof -
  have "\<forall>i\<in>set (range_step2 (length mixed_bits - 1)). i + 1 < length mixed_bits"
    by (auto simp: range_step2_def)
  moreover have "(length mixed_bits - 1 + 1) div 2 = length mixed_bits div 2"
    by (cases "length mixed_bits") auto
  ultimately show ?thesis
    by (simp add: xor_adjacent_bits_def xor_loop_total range_step2_def comp_def)
qed

lemma single_total:
  "\<exists>out. process_with_single_mixer input_bits = Inr out \<and>
         length out = (2 ^ (calculate_mixing_steps (length input_bits) - 1) + 1) div 2"
proof -
  have "0 < calculate_mixing_steps (length input_bits)"
    by (rule mixing_steps_pos)
  from mix_bits_total[OF this, of input_bits] show ?thesis
    by (auto simp: process_with_single_mixer_def xor_adjacent_bits_eq)
qed

section \<open>The worked example\<close>

text \<open>
  Where the first five input bits land does not depend on their values: every midpoint
  the rounds reach is still zero when it is reached.
\<close>

lemma mix_bits_eight:
  "mix_bits [b0, b1, b2, b3, b4, b5, b6, b7] 3 = Inr [b0, b3, b2, b4, b1]"
proof -
  have "(replicate 5 0)[0 := b0, 4 := b1, 2 := b2, Suc 0 := b3, 3 := b4] =
        [b0, b3, b2, b4, b1]"
    by (simp add: eval_nat_numeral)
  then show ?thesis
    by (simp add: mix_bits_def mix_init_def mix_round_def assign_item_def getitem_def
        setitem_def upt_rec)
qed

text \<open>
  C1. Single-mixer processing of the eight bits 0,1,1,0,1,1,0,1 takes 3 steps and a buffer
  of 5 slots. Input bit 0 goes to slot 0 and input bit 1 to slot 4; round 2 places one bit,
  at slot 2; round 3 places two bits, at slots 1 and 3; the buffer is then 0,0,1,1,1 and
  XOR of its pairs, the last slot dropped, gives the two output bits 0,0.
\<close>

theorem single_mixer_example:
  "calculate_mixing_steps (length [0, 1, 1, 0, 1, 1, 0, 1 :: uint8]) = 3
   \<and> (2::nat) ^ (3 - 1) + 1 = 5
   \<and> mix_init [0, 1, 1, 0, 1, 1, 0, 1] 5 =
       Inr \<lparr>mixed_buffer = [0, 0, 0, 0, 1], input_idx = 2, occupied_positions = [0, 4]\<rparr>
   \<and> scan_pairs [0, 1, 1, 0, 1, 1, 0, 1] [0, 4] [0 ..< 1] ([0, 0, 0, 0, 1], 2, []) =
       Inr ([0, 0, 1, 0, 1], 3, [2])
   \<and> scan_pairs [0, 1, 1, 0, 1, 1, 0, 1] [0, 2, 4] [0 ..< 2] ([0, 0, 1, 0, 1], 3, []) =
       Inr ([0, 0, 1, 1, 1], 5, [1, 3])
   \<and> mix_bits [0, 1, 1, 0, 1, 1, 0, 1] 3 = Inr [0, 0, 1, 1, 1]
   \<and> xor_adjacent_bits [0, 0, 1, 1, 1] = Inr [0, 0]
   \<and> process_with_single_mixer [0, 1, 1, 0, 1, 1, 0, 1] = Inr [0, 0]"
proof -
  have l: "length [0, 1, 1, 0, 1, 1, 0, 1 :: uint8] = 8" by simp
  have "calculate_mixing_steps 8 = 3"
    by (simp add: calculate_mixing_steps_small compute_floorlog)
  then have s: "calculate_mixing_steps (length [0, 1, 1, 0, 1, 1, 0, 1 :: uint8]) = 3"
    by (simp only: l)
  have pw: "(2::nat) ^ (3 - 1) + 1 = 5" by simp
  have i: "mix_init [0, 1, 1, 0, 1, 1, 0, 1] 5 =
       Inr \<lparr>mixed_buffer = [0, 0, 0, 0, 1], input_idx = 2, occupied_positions = [0, 4]\<rparr>"
    by code_simp
  have r2: "scan_pairs [0, 1, 1, 0, 1, 1, 0, 1] [0, 4] [0 ..< 1] ([0, 0, 0, 0, 1], 2, []) =
       Inr ([0, 0, 1, 0, 1], 3, [2])"
    by code_simp
  have r3: "scan_pairs [0, 1, 1, 0, 1, 1, 0, 1] [0, 2, 4] [0 ..< 2] ([0, 0, 1, 0, 1], 3, []) =
       Inr ([0, 0, 1, 1, 1], 5, [1, 3])"
    by code_simp
  have m: "mix_bits [0, 1, 1, 0, 1, 1, 0, 1] 3 = Inr [0, 0, 1, 1, 1]" by code_simp
  have x: "xor_adjacent_bits [0, 0, 1, 1, 1] = Inr [0, 0]" by code_simp
  have p: "process_with_single_mixer [0, 1, 1, 0, 1, 1, 0, 1] = Inr [0, 0]"
    unfolding process_with_single_mixer_def Let_def s m by (simp add: x)
  show ?thesis by (intro conjI s pw i r2 r3 m x p)
qed

section \<open>Capacity of the buffer\<close>

lemma mixing_steps_bounds:
  assumes "1 < n" and "n < 2 ^ 49"
  shows "1 \<le> calculate_mixing_steps n"
    and "2 ^ (calculate_mixing_steps n - 1) + 1 \<le> n"
    and "n \<le> 2 ^ calculate_mixing_steps n"
proof -
  from assms have s: "calculate_mixing_steps n = floorlog 2 (n - 1)"
    by (simp add: calculate_mixing_steps_small)
  from assms have pos: "0 < n - 1" by simp
  from floorlog_bounds[OF pos, of 2]
  have b: "2 ^ (floorlog 2 (n - 1) - 1) \<le> n - 1" "n - 1 < 2 ^ floorlog 2 (n - 1)" by auto
  from pos show "1 \<le> calculate_mixing_steps n"
    unfolding s by (simp add: floorlog_def)
  from b(1) assms show "2 ^ (calculate_mixing_steps n - 1) + 1 \<le> n"
    unfolding s by linarith
  from b(2) show "n \<le> 2 ^ calculate_mixing_steps n"
    unfolding s by linarith
qed

lemma mixing_steps_power:
  assumes "2 ^ k + 1 < (2 ^ 49 :: nat)"
  shows "calculate_mixing_steps (2 ^ k + 1) = k + 1"
proof -
  have "floorlog 2 (1 * 2 ^ k) = floorlog 2 1 + k"
    by (rule floorlog_power) auto
  moreover have "floorlog 2 1 = 1" by (simp add: compute_floorlog)
  ultimately have "floorlog 2 (2 ^ k) = k + 1" by simp
  with assms show ?thesis
    by (simp add: calculate_mixing_steps_small)
qed

text \<open>
  C2, as stated: for every \<open>n > 1\<close> the buffer of \<open>2 ^ (steps - 1) + 1\<close> slots holds
  at least \<open>n\<close> bits. It fails at \<open>n = 4\<close>: two steps, three slots.
\<close>

theorem mixing_steps_capacity_counterexample:
  "1 < (4::nat) \<and> 2 ^ (calculate_mixing_steps 4 - 1) + 1 < (4::nat)"
proof -
  have "calculate_mixing_steps 4 = 2"
    by (simp add: calculate_mixing_steps_small compute_floorlog)
  then show ?thesis by simp
qed

text \<open>
  C2, amended: for every \<open>n\<close> with \<open>1 < n < 2 ^ 49\<close>, where the doubles of
  \<open>math.log2\<close> still give the exact floor, the number of steps \<open>s\<close> is at least 1 and
  \<open>2 ^ (s - 1) + 1 \<le> n \<le> 2 ^ s\<close>: the buffer never has more slots than there are
  input bits, and it has exactly \<open>n\<close> slots just when \<open>n - 1\<close> is a power of two.
\<close>

theorem mixing_steps_capacity:
  assumes "1 < n" and "n < 2 ^ 49"
  shows "1 \<le> calculate_mixing_steps n
       \<and> 2 ^ (calculate_mixing_steps n - 1) + 1 \<le> n
       \<and> n \<le> 2 ^ calculate_mixing_steps n
       \<and> ((n \<le> 2 ^ (calculate_mixing_steps n - 1) + 1) = (\<exists>k. n = 2 ^ k + 1))"
proof -
  note b = mixing_steps_bounds[OF assms]
  have "(n \<le> 2 ^ (calculate_mixing_steps n - 1) + 1) = (\<exists>k. n = 2 ^ k + 1)"
  proof
    assume "n \<le> 2 ^ (calculate_mixing_steps n - 1) + 1"
    with b(2) have "n = 2 ^ (calculate_mixing_steps n - 1) + 1" by simp
    then show "\<exists>k. n = 2 ^ k + 1" by blast
  next
    assume "\<exists>k. n = 2 ^ k + 1"
    then obtain k where k: "n = 2 ^ k + 1" by blast
    with assms(2) have "2 ^ k + 1 < (2 ^ 49 :: nat)" by simp
    then have "calculate_mixing_steps (2 ^ k + 1) = k + 1" by (rule mixing_steps_power)
    then have "calculate_mixing_steps n = k + 1" by (simp only: k)
    with k show "n \<le> 2 ^ (calculate_mixing_steps n - 1) + 1"
      by simp
  qed
  with b show ?thesis by simp
qed

theorem mixing_steps_capacity_witness:
  "1 < (8::nat) \<and> (8::nat) < 2 ^ 49
   \<and> 1 \<le> calculate_mixing_steps 8
   \<and> 2 ^ (calculate_mixing_steps 8 - 1) + 1 \<le> (8::nat)
   \<and> (8::nat) \<le> 2 ^ calculate_mixing_steps 8
   \<and> (((8::nat) \<le> 2 ^ (calculate_mixing_steps 8 - 1) + 1) = (\<exists>k. (8::nat) = 2 ^ k + 1))"
  using mixing_steps_capacity[of 8] by simp

section \<open>Dual mixers\<close>

text \<open>
  C4. For every input, the dual-mixer result is the single-mixer result of the first
  \<open>len(bits) // 2\<close> bits followed by the single-mixer result of the remaining bits;
  each half takes its number of steps from its own length, and neither half raises.
\<close>

theorem dual_mixers_concat:
  "\<exists>output1 output2.
     process_with_single_mixer (take (length input_bits div 2) input_bits) = Inr output1
     \<and> process_with_single_mixer (drop (length input_bits div 2) input_bits) = Inr output2
     \<and> process_with_dual_mixers input_bits = Inr (output1 @ output2)"
proof -
  let ?b1 = "take (length input_bits div 2) input_bits"
  let ?b2 = "drop (length input_bits div 2) input_bits"
  from single_total[of ?b1] obtain output1 where
    o1: "process_with_single_mixer ?b1 = Inr output1" by blast
  from single_total[of ?b2] obtain output2 where
    o2: "process_with_single_mixer ?b2 = Inr output2" by blast
  from o1 o2 have "process_with_dual_mixers input_bits = Inr (output1 @ output2)"
    by (auto simp: process_with_dual_mixers_def process_with_single_mixer_def Let_def
        split: sum.splits)
  with o1 o2 show ?thesis by blast
qed

section \<open>Inputs of length 0 or 1\<close>

lemma scan_pairs_exhausted:
  assumes "length input_bits \<le> idx" and "\<forall>i\<in>set idxs. i + 1 < length occ"
  shows "scan_pairs input_bits occ idxs (buf, idx, newp) = Inr (buf, idx, newp)"
  using assms by (induction idxs) (auto simp: getitem_def Let_def)

lemma mix_round_exhausted:
  assumes "length input_bits \<le> input_idx st"
  shows "mix_round input_bits st =
           Inr (st\<lparr>occupied_positions := sort (occupied_positions st)\<rparr>)"
proof -
  have "\<forall>i\<in>set [0 ..< length (occupied_positions st) - 1]. i + 1 < length (occupied_positions st)"
    by auto
  from scan_pairs_exhausted[OF assms this] show ?thesis
    by (simp add: mix_round_def)
qed

lemma mix_bits_short:
  assumes "length input_bits \<le> 1" and "1 \<le> steps"
  shows "mix_bits input_bits steps =
           Inr (input_bits @ replicate (2 ^ (steps - 1) + 1 - length input_bits) 0)"
proof (cases "steps = 1")
  case True
  from assms(1) consider "input_bits = []" | b where "input_bits = [b]"
    by (cases input_bits) auto
  then show ?thesis
    using True
    by cases (simp_all add: mix_bits_def assign_item_def getitem_def setitem_def
        numeral_2_eq_2)
next
  case False
  let ?m = "2 ^ (steps - 1) + 1 :: nat"
  let ?buf = "input_bits @ replicate (?m - length input_bits) 0"
  let ?st0 = "\<lparr>mixed_buffer = ?buf, input_idx = 2, occupied_positions = [0, ?m - 1]\<rparr>"
  from assms(1) consider "input_bits = []" | b where "input_bits = [b]"
    by (cases input_bits) auto
  then have init: "mix_init input_bits ?m = Inr ?st0"
  proof cases
    case 1
    then show ?thesis by (simp add: mix_init_def)
  next
    case 2
    have "(replicate ?m (0::uint8))[0 := b] = b # replicate (?m - 1) 0"
      by simp
    with 2 show ?thesis
      by (simp add: mix_init_def assign_item_def getitem_def setitem_def)
  qed
  have ex: "length input_bits \<le> input_idx ?st0" using assms(1) by simp
  have r: "mix_round input_bits ?st0 = Inr ?st0"
    using mix_round_exhausted[OF ex] by simp
  have "mix_loop input_bits steps 2 ?st0 = Inr ?st0"
    using False assms r
    by (subst mix_loop.simps) simp
  with init False assms(2) show ?thesis
    by (simp add: mix_bits_def Let_def)
qed

text \<open>
  C9. Mixing an input of length 0 or 1 never raises, for any number of steps from 1 on:
  the buffer is the input followed by zeros, so at most as many slots are non-zero as
  there are input bits, and XOR compression of it returns a result, one bit for every
  two slots. With the steps the single mixer computes for such an input, 1, the result
  is the single bit 0 for the empty input and the input itself for one bit.
\<close>

theorem short_inputs_never_raise:
  assumes "length input_bits \<le> 1" and "1 \<le> steps"
  shows "\<exists>buf out.
           mix_bits input_bits steps = Inr buf
           \<and> buf = input_bits @ replicate (2 ^ (steps - 1) + 1 - length input_bits) 0
           \<and> length (filter (\<lambda>v. v \<noteq> 0) buf) \<le> length input_bits
           \<and> xor_adjacent_bits buf = Inr out
           \<and> length out = length buf div 2
           \<and> calculate_mixing_steps (length input_bits) = 1
           \<and> process_with_single_mixer input_bits = Inr (take 1 (input_bits @ [0]))"
proof -
  let ?buf = "input_bits @ replicate (2 ^ (steps - 1) + 1 - length input_bits) 0"
  have nz: "length (filter (\<lambda>v. v \<noteq> 0) ?buf) \<le> length input_bits"
    by (simp add: le_trans[OF length_filter_le])
  have one: "calculate_mixing_steps (length input_bits) = 1"
    using assms(1) by (simp add: calculate_mixing_steps_def)
  from assms(1) consider "input_bits = []" | b where "input_bits = [b]"
    by (cases input_bits) auto
  then have single: "process_with_single_mixer input_bits = Inr (take 1 (input_bits @ [0]))"
    by cases (simp_all add: process_with_single_mixer_def calculate_mixing_steps_def
        mix_bits_short xor_adjacent_bits_eq)
  show ?thesis
    using mix_bits_short[OF assms] nz one single
    by (simp add: xor_adjacent_bits_eq)
qed

theorem short_inputs_never_raise_witness:
  "length [1::uint8] \<le> 1 \<and> (1::nat) \<le> 3
   \<and> mix_bits [1] 3 = Inr [1, 0, 0, 0, 0]
   \<and> process_with_single_mixer [1] = Inr [1]"
proof -
  have h: "length [1::uint8] \<le> 1" "(1::nat) \<le> 3" by simp_all
  have v: "[1] @ replicate (2 ^ (3 - 1) + 1 - length [1::uint8]) 0 = [1, 0, 0, 0, 0 :: uint8]"
    by code_simp
  from short_inputs_never_raise[OF h]
  have "mix_bits [1] 3 = Inr ([1] @ replicate (2 ^ (3 - 1) + 1 - length [1::uint8]) 0)"
    and "process_with_single_mixer [1] = Inr (take 1 ([1::uint8] @ [0]))"
    by auto
  with v h show ?thesis by simp
qed

section \<open>Length of the single-mixer output\<close>

lemma single_mixer_short:
  assumes "length input_bits \<le> 1"
  shows "process_with_single_mixer input_bits = Inr (take 1 (input_bits @ [0]))"
proof -
  from assms consider "input_bits = []" | b where "input_bits = [b]"
    by (cases input_bits) auto
  then show ?thesis
    by cases (simp_all add: process_with_single_mixer_def calculate_mixing_steps_def
        mix_bits_short xor_adjacent_bits_eq)
qed

lemma mixing_steps_two: "calculate_mixing_steps 2 = 1"
  by (simp add: calculate_mixing_steps_small compute_floorlog)

lemma half_buffer: 
  assumes "2 \<le> s"
  shows "(2 ^ (s - 1) + 1) div 2 = (2::nat) ^ (s - 2)"
proof -
  from assms obtain k where "s = k + 2" using le_Suc_ex[of 2 s] by (auto simp: add.commute)
  then show ?thesis by simp
qed

text \<open>
  C10, as stated: for an input of \<open>n \<ge> 2\<close> bits the output has exactly
  \<open>2 ^ (steps - 2)\<close> bits. It fails at \<open>n = 2\<close>: there \<open>steps = 1\<close>, the formula
  gives one half, and the output is one bit.
\<close>

theorem single_mixer_length_counterexample:
  "process_with_single_mixer [0, 0] = Inr [0]
   \<and> calculate_mixing_steps (length [0, 0 :: uint8]) = 1
   \<and> real (length [0 :: uint8])
       \<noteq> 2 powr (real (calculate_mixing_steps (length [0, 0 :: uint8])) - 2)"
proof -
  have l: "length [0, 0 :: uint8] = 2" by simp
  have b: "calculate_mixing_steps (length [0, 0 :: uint8]) = 1"
    by (simp only: l mixing_steps_two)
  have m: "mix_bits [0, 0] 1 = Inr [0, 0]" by code_simp
  have x: "xor_adjacent_bits [0, 0] = Inr [0]" by code_simp
  have a: "process_with_single_mixer [0, 0] = Inr [0]"
    unfolding process_with_single_mixer_def Let_def b m by (simp add: x)
  have "(2::real) powr (1 - 2) = 1 / 2"
    by (simp add: powr_minus_divide)
  then have c: "real (length [0 :: uint8]) \<noteq> 2 powr (real 1 - 2)" by simp
  from a b c show ?thesis by simp
qed

text \<open>
  C10, amended: the single mixer always returns a result, never an empty one, and its
  length is \<open>(2 ^ (steps - 1) + 1) div 2\<close>, a function of the input's length alone.
  The empty input gives the single bit 0, a one-bit input gives that bit, an input of two
  bits gives one bit, and an input of \<open>n \<ge> 3\<close> bits has \<open>steps \<ge> 2\<close> and gives
  exactly \<open>2 ^ (steps - 2)\<close> bits.
\<close>

theorem single_mixer_output_length:
  "\<exists>out. process_with_single_mixer input_bits = Inr out
     \<and> out \<noteq> []
     \<and> length out = (2 ^ (calculate_mixing_steps (length input_bits) - 1) + 1) div 2
     \<and> (input_bits = [] \<longrightarrow> out = [0])
     \<and> (\<forall>b. input_bits = [b] \<longrightarrow> out = [b])
     \<and> (length input_bits = 2 \<longrightarrow> length out = 1)
     \<and> (3 \<le> length input_bits \<longrightarrow>
          2 \<le> calculate_mixing_steps (length input_bits)
          \<and> length out = 2 ^ (calculate_mixing_steps (length input_bits) - 2))"
proof -
  let ?s = "calculate_mixing_steps (length input_bits)"
  from single_total[of input_bits] obtain out where
    out: "process_with_single_mixer input_bits = Inr out"
         "length out = (2 ^ (?s - 1) + 1) div 2" by blast
  have "(1::nat) \<le> 2 ^ (?s - 1)" by simp
  then have "1 \<le> (2 ^ (?s - 1) + 1) div (2::nat)" by linarith
  with out(2) have ne: "out \<noteq> []" by auto
  have e: "input_bits = [] \<longrightarrow> out = [0]"
    using out(1) single_mixer_short[of input_bits] by auto
  have o: "\<forall>b. input_bits = [b] \<longrightarrow> out = [b]"
    using out(1) single_mixer_short[of input_bits] by auto
  have t: "length input_bits = 2 \<longrightarrow> length out = 1"
    using out(2) by (auto simp: mixing_steps_two)
  have g: "3 \<le> length input_bits \<longrightarrow> 2 \<le> ?s \<and> length out = 2 ^ (?s - 2)"
    using out(2) mixing_steps_ge_two[of "length input_bits"] half_buffer[of ?s] by auto
  from out ne e o t g show ?thesis by blast
qed

theorem single_mixer_output_length_witness:
  "3 \<le> length [0, 1, 1, 0, 1, 1, 0, 1 :: uint8]
   \<and> 2 \<le> calculate_mixing_steps (length [0, 1, 1, 0, 1, 1, 0, 1 :: uint8])
   \<and> length (projr (process_with_single_mixer [0, 1, 1, 0, 1, 1, 0, 1])) =
       2 ^ (calculate_mixing_steps (length [0, 1, 1, 0, 1, 1, 0, 1 :: uint8]) - 2)"
proof -
  have h: "3 \<le> length [0, 1, 1, 0, 1, 1, 0, 1 :: uint8]" by simp
  from single_mixer_output_length[of "[0, 1, 1, 0, 1, 1, 0, 1]"] h
  obtain out where "process_with_single_mixer [0, 1, 1, 0, 1, 1, 0, 1] = Inr out"
    "2 \<le> calculate_mixing_steps (length [0, 1, 1, 0, 1, 1, 0, 1 :: uint8])"
    "length out = 2 ^ (calculate_mixing_steps (length [0, 1, 1, 0, 1, 1, 0, 1 :: uint8]) - 2)"
    by blast
  with h show ?thesis by simp
qed

section \<open>Packing bits into bytes and back\<close>

lemma pack_byte_fold:
  assumes "\<forall>j\<in>set js. i * 8 + j < length bits"
  shows "pack_byte bits i js acc =
           Inr (fold (\<lambda>j a. a OR push_bit (7 - j) (bits ! (i * 8 + j))) js acc)"
  using assms by (induction js arbitrary: acc) (auto simp: getitem_def)

lemma pack_byte_packed:
  assumes "i * 8 + 8 \<le> length bits"
  shows "pack_byte bits i [0 ..< 8] 0 = Inr (packed_byte bits i)"
  unfolding packed_byte_def using assms by (intro pack_byte_fold) auto

lemma pack_bytes_map:
  assumes "\<forall>i\<in>set idxs. i * 8 + 8 \<le> length bits"
  shows "pack_bytes bits idxs acc = Inr (acc @ map (packed_byte bits) idxs)"
  using assms by (induction idxs arbitrary: acc) (auto simp: pack_byte_packed)

lemma bit_fold_or:
  "bit (fold (\<lambda>j a. a OR f j) js (acc::uint8)) k = (bit acc k \<or> (\<exists>j\<in>set js. bit (f j) k))"
  by (induction js arbitrary: acc) (auto simp: bit_or_iff)

lemma bit_push_bit_01:
  assumes "b = 0 \<or> b = (1::uint8)" and "j < 8" and "k < 8"
  shows "bit (push_bit (7 - j) b) k = (k = 7 - j \<and> b = 1)"
  using assms by (auto simp: bit_push_bit_iff bit_1_iff)

lemma packed_byte_bit:
  assumes "i * 8 + 8 \<le> length bits" and "set bits \<subseteq> {0, 1}" and "j < 8"
  shows "bit (packed_byte bits i) (7 - j) = (bits ! (i * 8 + j) = 1)"
proof -
  have b: "bits ! (i * 8 + j') = 0 \<or> bits ! (i * 8 + j') = 1" if "j' < 8" for j'
  proof -
    from that assms(1) have "bits ! (i * 8 + j') \<in> set bits" by (intro nth_mem) simp
    with assms(2) show ?thesis by auto
  qed
  have "bit (packed_byte bits i) (7 - j) =
          (\<exists>j'\<in>{0..<8}. bit (push_bit (7 - j') (bits ! (i * 8 + j'))) (7 - j))"
    by (simp add: packed_byte_def bit_fold_or)
  also have "\<dots> = (\<exists>j'\<in>{0..<8}. 7 - j = 7 - j' \<and> bits ! (i * 8 + j') = 1)"
    using b by (intro bex_cong refl bit_push_bit_01) auto
  also have "\<dots> = (bits ! (i * 8 + j) = 1)"
  proof
    assume "\<exists>j'\<in>{0..<8}. 7 - j = 7 - j' \<and> bits ! (i * 8 + j') = 1"
    then obtain j' where "j' < 8" "7 - j = 7 - j'" "bits ! (i * 8 + j') = 1" by auto
    with assms(3) have "j' = j" by linarith
    with \<open>bits ! (i * 8 + j') = 1\<close> show "bits ! (i * 8 + j) = 1" by simp
  next
    assume "bits ! (i * 8 + j) = 1"
    with assms(3) show "\<exists>j'\<in>{0..<8}. 7 - j = 7 - j' \<and> bits ! (i * 8 + j') = 1"
      by (intro bexI[of _ j]) auto
  qed
  finally show ?thesis .
qed

lemma and_one_of_bool: "drop_bit n (a::uint8) AND 1 = of_bool (bit a n)"
  by (simp add: and_one_eq mod_2_eq_odd bit_iff_odd_drop_bit)

lemma byte_to_bits_nth:
  assumes "k < 8"
  shows "byte_to_bits byte ! k = of_bool (bit byte (7 - k))"
proof -
  have "rev [0 ..< 8] ! k = 7 - k" using assms by (simp add: rev_nth)
  with assms show ?thesis by (simp add: byte_to_bits_def and_one_of_bool)
qed

lemma length_byte_to_bits: "length (byte_to_bits byte) = 8"
  by (simp add: byte_to_bits_def)

lemma byte_to_bits_packed:
  assumes "i * 8 + 8 \<le> length bits" and "set bits \<subseteq> {0, 1}"
  shows "byte_to_bits (packed_byte bits i) = take 8 (drop (i * 8) bits)"
proof (rule nth_equalityI)
  show "length (byte_to_bits (packed_byte bits i)) = length (take 8 (drop (i * 8) bits))"
    using assms(1) by (simp add: length_byte_to_bits)
next
  fix k assume "k < length (byte_to_bits (packed_byte bits i))"
  then have k: "k < 8" by (simp add: length_byte_to_bits)
  from k assms(1) have "bits ! (i * 8 + k) \<in> set bits" by (intro nth_mem) simp
  with assms(2) have b: "bits ! (i * 8 + k) = 0 \<or> bits ! (i * 8 + k) = 1" by auto
  have "byte_to_bits (packed_byte bits i) ! k = of_bool (bits ! (i * 8 + k) = 1)"
    using k by (simp add: byte_to_bits_nth packed_byte_bit[OF assms k])
  also have "\<dots> = bits ! (i * 8 + k)" using b by auto
  also have "\<dots> = take 8 (drop (i * 8) bits) ! k" using k assms(1) by simp
  finally show "byte_to_bits (packed_byte bits i) ! k = take 8 (drop (i * 8) bits) ! k" .
qed

lemma concat_unpack:
  assumes "n * 8 \<le> length bits" and "set bits \<subseteq> {0, 1}"
  shows "concat (map byte_to_bits (map (packed_byte bits) [0 ..< n])) = take (n * 8) bits"
  using assms(1)
proof (induction n)
  case 0
  then show ?case by simp
next
  case (Suc n)
  then have le: "n * 8 + 8 \<le> length bits" by simp
  have "take (n * 8) bits @ take 8 (drop (n * 8) bits) = take (n * 8 + 8) bits"
    by (simp add: take_add)
  with Suc le show ?case
    by (simp add: byte_to_bits_packed[OF le assms(2)] add.commute)
qed




lemma save_bits_to_file_eq:
  "save_bits_to_file fs bits filename =
     (let padded = bits @ replicate ((8 - length bits mod 8) mod 8) 0 in
      Inr (fs(filename \<mapsto> map (packed_byte padded) [0 ..< length padded div 8]),
           length padded))"
proof -
  let ?pad = "(8 - length bits mod 8) mod 8"
  let ?padded = "bits @ replicate ?pad 0"
  have eq: "(if 0 < ?pad then bits @ replicate ?pad 0 else bits) = ?padded" by simp
  have "\<forall>i\<in>set [0 ..< length ?padded div 8]. i * 8 + 8 \<le> length ?padded"
    by auto
  from pack_bytes_map[OF this, of "[]"]
  have p: "pack_bytes ?padded [0 ..< length ?padded div 8] [] =
             Inr (map (packed_byte ?padded) [0 ..< length ?padded div 8])"
    by simp
  show ?thesis
    unfolding save_bits_to_file_def eq Let_def p by simp
qed

lemma padded_length:
  "(n::nat) + (8 - n mod 8) mod 8 = 8 * ((n + 7) div 8)"
proof -
  define r where "r = n mod 8"
  define q where "q = n div 8"
  have n: "n = r + q * 8" and r: "r < 8" by (simp_all add: r_def q_def)
  have d: "(n + 7) div 8 = (r + 7) div 8 + q"
    unfolding n by (simp add: add.assoc add.left_commute add.commute)
  have e: "r + (8 - r) mod 8 = 8 * ((r + 7) div 8)"
  proof -
    from r consider "r = 0" | "r = 1" | "r = 2" | "r = 3" | "r = 4" | "r = 5" | "r = 6" | "r = 7"
      by linarith
    then show ?thesis by cases simp_all
  qed
  have "n + (8 - n mod 8) mod 8 = (r + (8 - r) mod 8) + q * 8"
    using n by (simp add: r_def)
  also have "\<dots> = 8 * ((r + 7) div 8 + q)" unfolding e by simp
  finally show ?thesis unfolding d .
qed

lemma padded_length_same:
  "(8 * (((n::nat) + 7) div 8) = n) = (8 dvd n)"
proof
  assume "8 * ((n + 7) div 8) = n"
  then show "8 dvd n" by (metis dvd_triv_left)
next
  assume "8 dvd n"
  then obtain k where "n = 8 * k" by (elim dvdE)
  then show "8 * ((n + 7) div 8) = n" by simp
qed

text \<open>
  C7, as stated: \<open>save_bits_to_file\<close> returns the number of bits before padding, the
  length of its input. It fails for the single bit 1: the file holds the byte 128 and the
  function returns 8.
\<close>

theorem save_returns_padded_length_counterexample:
  "(case save_bits_to_file Map.empty [1] ''bits.bin'' of
      Inl e \<Rightarrow> None
    | Inr (fs', n) \<Rightarrow> Some (fs' ''bits.bin'', n)) = Some (Some [128], 8)
   \<and> (8::nat) \<noteq> length [1 :: uint8]"
  by code_simp

text \<open>
  C7, amended: for every list of bits, \<open>save_bits_to_file\<close> writes
  \<open>ceil(len / 8)\<close> bytes, most significant bit first (bit \<open>7 - j\<close> of byte \<open>i\<close> is
  input bit \<open>8 i + j\<close>) and zero where the input has ended, and returns the length after
  padding, \<open>8 * ceil(len / 8)\<close>; that is the input's length exactly when the length is
  a multiple of 8.
\<close>

theorem save_bits_to_file_result:
  assumes "set bits \<subseteq> {0, 1}"
  shows "\<exists>bytes_data.
           save_bits_to_file fs bits filename =
             Inr (fs(filename \<mapsto> bytes_data), 8 * ((length bits + 7) div 8))
           \<and> length bytes_data = (length bits + 7) div 8
           \<and> (\<forall>i < length bytes_data. \<forall>j < 8.
                 bit (bytes_data ! i) (7 - j) =
                   (i * 8 + j < length bits \<and> bits ! (i * 8 + j) = 1))
           \<and> ((8 * ((length bits + 7) div 8) = length bits) = (8 dvd length bits))"
proof -
  let ?pad = "(8 - length bits mod 8) mod 8"
  let ?padded = "bits @ replicate ?pad 0"
  let ?bytes = "map (packed_byte ?padded) [0 ..< length ?padded div 8]"
  have len: "length ?padded = 8 * ((length bits + 7) div 8)"
    using padded_length[of "length bits"] by simp
  have s: "save_bits_to_file fs bits filename =
             Inr (fs(filename \<mapsto> ?bytes), 8 * ((length bits + 7) div 8))"
    using len by (simp add: save_bits_to_file_eq Let_def)
  have l: "length ?bytes = (length bits + 7) div 8" using len by simp
  have sub: "set ?padded \<subseteq> {0, 1}" using assms by auto
  have b: "bit (?bytes ! i) (7 - j) = (i * 8 + j < length bits \<and> bits ! (i * 8 + j) = 1)"
    if "i < length ?bytes" and "j < 8" for i j
  proof -
    from that(1) have i: "i < length ?padded div 8" by simp
    then have le: "i * 8 + 8 \<le> length ?padded" by linarith
    have "?bytes ! i = packed_byte ?padded i" using i by simp
    then have "bit (?bytes ! i) (7 - j) = (?padded ! (i * 8 + j) = 1)"
      by (simp only: packed_byte_bit[OF le sub that(2)])
    also have "\<dots> = (i * 8 + j < length bits \<and> bits ! (i * 8 + j) = 1)"
    proof (cases "i * 8 + j < length bits")
      case True
      then show ?thesis by (simp add: nth_append)
    next
      case False
      with le that(2) have "?padded ! (i * 8 + j) = 0"
        by (simp add: nth_append)
      with False show ?thesis by simp
    qed
    finally show ?thesis .
  qed
  note d = padded_length_same[of "length bits"]
  from s l b d show ?thesis by blast
qed

theorem save_bits_to_file_result_witness:
  "set [1 :: uint8] \<subseteq> {0, 1}
   \<and> map_sum id snd (save_bits_to_file Map.empty [1] ''bits.bin'') =
       Inr (8 * ((length [1 :: uint8] + 7) div 8))"
proof -
  have h: "set [1 :: uint8] \<subseteq> {0, 1}" by simp
  from save_bits_to_file_result[OF h, of Map.empty "''bits.bin''"] h
  show ?thesis by auto
qed

text \<open>
  C8. For every list of bits whose length is a multiple of 8, loading the file that
  \<open>save_bits_to_file\<close> wrote, with no \<open>max_bits\<close>, gives the list back.
\<close>

theorem pack_unpack_roundtrip:
  assumes "8 dvd length bits" and "set bits \<subseteq> {0, 1}"
  shows "\<exists>fs' n. save_bits_to_file fs bits filename = Inr (fs', n)
                 \<and> load_bits_from_file fs' filename None = bits"
proof -
  from assms(1) obtain k where k: "length bits = 8 * k" by (elim dvdE)
  then have pad: "(8 - length bits mod 8) mod 8 = 0" by simp
  have "concat (map byte_to_bits (map (packed_byte bits) [0 ..< k])) = take (k * 8) bits"
    using k assms(2) by (intro concat_unpack) auto
  with k have "concat (map byte_to_bits (map (packed_byte bits) [0 ..< k])) = bits"
    by (simp add: mult.commute)
  with k pad show ?thesis
    by (simp add: save_bits_to_file_eq load_bits_from_file_def Let_def)
qed

theorem pack_unpack_roundtrip_witness:
  "8 dvd length [1, 0, 1, 1, 0, 0, 1, 0 :: uint8]
   \<and> set [1, 0, 1, 1, 0, 0, 1, 0 :: uint8] \<subseteq> {0, 1}
   \<and> load_bits_from_file
        (fst (projr (save_bits_to_file Map.empty [1, 0, 1, 1, 0, 0, 1, 0] ''bits.bin'')))
        ''bits.bin'' None = [1, 0, 1, 1, 0, 0, 1, 0]"
proof -
  have l: "length [1, 0, 1, 1, 0, 0, 1, 0 :: uint8] = 8" by simp
  have h: "8 dvd length [1, 0, 1, 1, 0, 0, 1, 0 :: uint8]"
    "set [1, 0, 1, 1, 0, 0, 1, 0 :: uint8] \<subseteq> {0, 1}"
    unfolding l by simp_all
  from pack_unpack_roundtrip[OF h, of Map.empty "''bits.bin''"] h
  show ?thesis by auto
qed

section \<open>Whitening\<close>

lemma hashlib_unbound: "hashlib_sha3_256 sha3_256 d = Inl NameError"
  by (simp add: hashlib_sha3_256_def load_global_def module_names_def)

lemma hash_chunks_raises:
  assumes "i < 2 ^ 32"
  shows "hash_chunks sha3_256 data chunk_size (i # rest) acc = Inl NameError"
  using assms by (simp add: to_bytes4_def hashlib_unbound)

lemma hash_whole_raises:
  assumes "length data div chunk_size + i < 2 ^ 32"
  shows "hash_whole sha3_256 data chunk_size (i # rest) acc = Inl NameError"
  using assms by (simp add: to_bytes4_def hashlib_unbound Let_def)

text \<open>
  Whatever the file holds, the first digest asked for is never computed: for every
  \<open>target_bits > 0\<close> the function raises NameError, in the first loop where the file
  has a whole chunk and in the second loop otherwise.
\<close>

lemma whitening_raises:
  assumes "fs input_file = Some data" and "0 < target_bits"
  shows "generate_and_save_sha3 sha3_256 fs input_file output_file target_bits =
           Inl NameError"
proof -
  define nh where "nh = (target_bits + 255) div 256"
  define cs where "cs = max (length data div min nh 1000) 64"
  define nc where "nc = min nh (length data div cs)"
  have nh_pos: "0 < nh" using assms(2) by (simp add: nh_def div_greater_zero_iff)
  have m: "(min ((target_bits + 255) div 256) 1000 = 0) = False"
    using nh_pos by (simp add: nh_def)
  show ?thesis
  proof (cases "0 < nc")
    case True
    then have "[0 ..< nc] = 0 # [1 ..< nc]" by (simp add: upt_conv_Cons)
    moreover have "(0::nat) < 2 ^ 32" by simp
    ultimately have "hash_chunks sha3_256 data cs [0 ..< nc] [] = Inl NameError"
      by (simp only: hash_chunks_raises)
    note h = this[unfolded nc_def cs_def nh_def]
    show ?thesis
      unfolding generate_and_save_sha3_def assms(1) Let_def
      by (simp only: option.case m if_False h sum.case)
  next
    case False
    then have nc0: "nc = 0" by simp
    with nh_pos have d0: "length data div cs = 0" by (simp add: nc_def min_def split: if_splits)
    have c: "hash_chunks sha3_256 data cs [0 ..< nc] [] = Inr []" by (simp add: nc0)
    have r: "0 < nh - nc" using nh_pos nc0 by simp
    then have "[0 ..< nh - nc] = 0 # [1 ..< nh - nc]" by (simp add: upt_conv_Cons)
    moreover have "length data div cs + 0 < 2 ^ 32" by (simp add: d0)
    ultimately have "hash_whole sha3_256 data cs [0 ..< nh - nc] [] = Inl NameError"
      by (simp only: hash_whole_raises)
    with r have "(if 0 < nh - nc then hash_whole sha3_256 data cs [0 ..< nh - nc] []
                  else Inr []) = Inl NameError" by simp
    note h = this[unfolded nc_def cs_def nh_def]
    note c' = c[unfolded nc_def cs_def nh_def]
    show ?thesis
      unfolding generate_and_save_sha3_def assms(1) Let_def
      by (simp only: option.case m if_False c' h sum.case)
  qed
qed

text \<open>
  C3. The claim is that whitening returns exactly \<open>target_bits\<close> bits for every
  non-empty input and every \<open>target_bits > 0\<close>. The function returns nothing: on a
  file of 64 zero bytes and \<open>target_bits = 256\<close>, one digest of one chunk is needed,
  and asking for it raises NameError, since \<open>hashlib\<close> is imported inside
  \<open>generate\<close> and is no name of the module.
\<close>

theorem whitening_raises_name_error:
  "generate_and_save_sha3 sha3_256 [''random_bits_mibis.bin'' \<mapsto> replicate 64 0]
     ''random_bits_mibis.bin'' ''random_bits_sha3.bin'' 256 = Inl NameError"
  by (rule whitening_raises) simp_all

section \<open>The batch loop\<close>




lemma float_chain_overflow:
  fixes x :: real
  assumes "2 ^ 1024 \<le> x"
  defines "q \<equiv> round_double (x / 44100)"
  defines "d \<equiv> round_double (q * (3 / 2))"
  defines "s \<equiv> round_double (d * 44100)"
  shows "2 ^ 1024 \<le> s"
proof -
  have p: "(2::real) ^ 1024 = 2 ^ 36 * 2 ^ 988" by (simp only: power_add[symmetric]) simp
  have "real 1558264 * 2 ^ 988 \<le> (2 ^ 36 / 44100) * 2 ^ 988" by (intro mult_right_mono) simp_all
  also have "\<dots> = 2 ^ 36 * 2 ^ 988 / 44100" by simp
  also have "\<dots> \<le> x / 44100" using assms(1) unfolding p by simp
  finally have q: "real 1558264 * 2 ^ 988 \<le> q"
    unfolding q_def by (intro round_double_ge_scaled) simp_all
  have "real 2337396 * 2 ^ 988 = real 1558264 * 2 ^ 988 * (3 / 2)" by simp
  also have "\<dots> \<le> q * (3 / 2)" using q by simp
  finally have d: "real 2337396 * 2 ^ 988 \<le> d"
    unfolding d_def by (intro round_double_ge_scaled) simp_all
  have "real 103079163600 * 2 ^ 988 = real 2337396 * 2 ^ 988 * 44100" by simp
  also have "\<dots> \<le> d * 44100" using d by simp
  finally have s: "real 103079163600 * 2 ^ 988 \<le> s"
    unfolding s_def by (intro round_double_ge_scaled) simp_all
  have "(2::real) ^ 36 * 2 ^ 988 \<le> real 103079163600 * 2 ^ 988"
    by (intro mult_right_mono) simp_all
  with s show ?thesis unfolding p by simp
qed

text \<open>
  From \<open>2 ^ 1024\<close> bits in one batch the number of chunks is not computed: the
  product with the sample rate is infinite, if not the duration or the quotient before
  it, and the conversion to an integer raises OverflowError.
\<close>

lemma capture_overflows:
  assumes "2 ^ 1024 \<le> bits_needed"
  shows "(case capture_duration bits_needed of
            Inl e \<Rightarrow> Inl e
          | Inr duration \<Rightarrow> chunks_to_read duration) = Inl OverflowError"
proof -
  have "real (2 ^ 1024) \<le> real bits_needed" using assms by (simp only: of_nat_le_iff)
  then have x: "2 ^ 1024 \<le> real bits_needed" by simp
  note s = float_chain_overflow[OF x]
  show ?thesis
    using s
    by (simp add: capture_duration_def int_truediv_def chunks_to_read_def float_mul_def
        float_div_def float_result_def float_to_int_def)
qed








lemma generate_iteration_overflows:
  assumes "2 ^ 1024 \<le> batch_size"
    and "2 ^ 1024 \<le> target_bits - total_bits_generated st"
  shows "generate_iteration use_dual_mixers batch_size target_bits source st =
           Inl OverflowError"
proof -
  from assms have "2 ^ 1024 \<le> min batch_size (target_bits - total_bits_generated st)"
    by simp
  from capture_overflows[OF this] show ?thesis
    unfolding generate_iteration_def Let_def by (auto split: sum.splits)
qed


text \<open>
  With batches of \<open>2 ^ 1024\<close> bits the loop ends in its first iteration, with
  OverflowError.
\<close>

lemma batch_loop_overflows:
  "generate_loop use_dual_mixers (2 ^ 1024) (2 ^ 1024) source gen_init =
     Some (Inl OverflowError)"
proof -
  have "generate_iteration use_dual_mixers (2 ^ 1024) (2 ^ 1024) source gen_init =
          Inl OverflowError"
    by (rule generate_iteration_overflows) (simp_all add: gen_init_def)
  then show ?thesis
    by (subst generate_loop.simps) (simp add: gen_init_def)
qed




section \<open>The filled positions during mixing\<close>

lemma length_grid: "length (grid g n) = n + 1"
  by (simp add: grid_def)

lemma grid_nth: "j \<le> n \<Longrightarrow> grid g n ! j = j * g"
  unfolding grid_def by (subst nth_map) (simp_all del: upt_Suc)

lemma mids_Suc: "mids g h k (Suc t) = (k * g + h) # mids g h (Suc k) t"
  by (simp add: mids_def upt_conv_Cons)

lemma scan_pairs_grid:
  assumes g: "g = 2 * h" and h: "0 < h"
    and len: "length buf = n * g + 1"
    and k: "k \<le> n"
    and zero: "\<forall>j. k \<le> j \<and> j < n \<longrightarrow> buf ! (j * g + h) = 0"
  shows "\<exists>buf'.
           scan_pairs input_bits (grid g n) [k ..< n] (buf, idx, newp) =
             Inr (buf', idx + min (n - k) (length input_bits - idx),
                  newp @ mids g h k (min (n - k) (length input_bits - idx)))
           \<and> length buf' = length buf
           \<and> (\<forall>p < length buf.
                 p \<notin> set (mids g h k (min (n - k) (length input_bits - idx))) \<longrightarrow>
                 buf' ! p = buf ! p)"
  using len k zero
proof (induction "n - k" arbitrary: k buf idx newp)
  case 0
  then have "k = n" by simp
  then show ?case by (simp add: mids_def)
next
  case (Suc d)
  then have kn: "k < n" by simp
  have upt: "[k ..< n] = k # [Suc k ..< n]" using kn by (simp add: upt_conv_Cons)
  have l: "getitem (grid g n) k = Inr (k * g)"
    using kn by (simp add: getitem_def length_grid grid_nth)
  have r: "getitem (grid g n) (k + 1) = Inr ((k + 1) * g)"
    using kn by (simp add: getitem_def length_grid grid_nth)
  have mid: "(k * g + (k + 1) * g) div 2 = k * g + h"
    by (simp add: g algebra_simps)
  have "k * g + g \<le> n * g" using kn
    by (metis Suc_leI add.commute mult_Suc mult_le_mono1)
  with g h have midlt: "k * g + h < length buf" using Suc.prems(1) by simp
  show ?case
  proof (cases "idx < length input_bits")
    case False
    then have ex: "length input_bits \<le> idx" by simp
    have "\<forall>i\<in>set [k ..< n]. i + 1 < length (grid g n)" by (simp add: length_grid)
    from scan_pairs_exhausted[OF ex this, of buf newp] False show ?thesis
      by (simp add: mids_def)
  next
    case True
    let ?buf = "buf[k * g + h := input_bits ! idx]"
    have z: "buf ! (k * g + h) = 0" using Suc.prems(3) kn by simp
    have d: "d = n - Suc k" using Suc.hyps(2) by simp
    have len': "length ?buf = n * g + 1" using Suc.prems(1) by simp
    have k': "Suc k \<le> n" using kn by simp
    have zero': "\<forall>j. Suc k \<le> j \<and> j < n \<longrightarrow> ?buf ! (j * g + h) = 0"
    proof (intro allI impI)
      fix j assume j: "Suc k \<le> j \<and> j < n"
      then have "k * g < j * g" using g h by simp
      then have "j * g + h \<noteq> k * g + h" by simp
      with j Suc.prems(3) show "?buf ! (j * g + h) = 0" by simp
    qed
    from Suc.hyps(1)[OF d len' k' zero', of "idx + 1" "newp @ [k * g + h]"]
    obtain buf' where
      sc: "scan_pairs input_bits (grid g n) [Suc k ..< n] (?buf, idx + 1, newp @ [k * g + h]) =
             Inr (buf', idx + 1 + min (n - Suc k) (length input_bits - (idx + 1)),
                  (newp @ [k * g + h]) @
                    mids g h (Suc k) (min (n - Suc k) (length input_bits - (idx + 1))))"
      and lb: "length buf' = length ?buf"
      and same: "\<forall>p < length ?buf.
                  p \<notin> set (mids g h (Suc k) (min (n - Suc k) (length input_bits - (idx + 1)))) \<longrightarrow>
                  buf' ! p = ?buf ! p"
      by blast
    let ?t' = "min (n - Suc k) (length input_bits - (idx + 1))"
    let ?t = "min (n - k) (length input_bits - idx)"
    have t: "?t = Suc ?t'" using kn True by simp
    have m: "mids g h k ?t = (k * g + h) # mids g h (Suc k) ?t'"
      by (simp only: t mids_Suc)
    have gb: "getitem buf (k * g + h) = Inr 0"
      using z midlt by (simp add: getitem_def)
    have as: "assign_item buf (k * g + h) input_bits idx = Inr ?buf"
      using True midlt by (simp add: assign_item_def getitem_def setitem_def)
    have step: "scan_pairs input_bits (grid g n) (k # [Suc k ..< n]) (buf, idx, newp) =
                  scan_pairs input_bits (grid g n) [Suc k ..< n]
                    (?buf, idx + 1, newp @ [k * g + h])"
      using True
      by (simp only: scan_pairs.simps l r mid Let_def if_True gb as sum.case simp_thms)
    have run: "scan_pairs input_bits (grid g n) [k ..< n] (buf, idx, newp) =
             Inr (buf', idx + ?t, newp @ mids g h k ?t)"
      unfolding upt step sc by (simp add: t mids_Suc)
    have "\<forall>p < length buf. p \<notin> set (mids g h k ?t) \<longrightarrow> buf' ! p = buf ! p"
    proof (intro allI impI)
      fix p assume p: "p < length buf" "p \<notin> set (mids g h k ?t)"
      then have "p \<noteq> k * g + h" and "p \<notin> set (mids g h (Suc k) ?t')"
        by (simp_all add: m)
      with same p(1) show "buf' ! p = buf ! p" by simp
    qed
    with run lb show ?thesis by auto
  qed
qed


lemma set_grid: "set (grid g n) = {j * g | j. j \<le> n}"
  by (auto simp: grid_def)

lemma set_mids: "set (mids g h k t) = {j * g + h | j. k \<le> j \<and> j < k + t}"
  by (auto simp: mids_def)

lemma sorted_grid: "0 < g \<Longrightarrow> sorted_wrt (<) (grid g n)"
  unfolding grid_def by (simp add: sorted_wrt_map del: upt_Suc)

lemma distinct_mids: "0 < g \<Longrightarrow> distinct (mids g h k t)"
  by (simp add: mids_def distinct_map inj_on_def)

lemma grid_mids_disjoint:
  assumes "g = 2 * h" and "0 < h"
  shows "set (grid g n) \<inter> set (mids g h k t) = {}"
proof -
  have "j * g \<noteq> j' * g + h" for j j'
  proof
    assume "j * g = j' * g + h"
    then have "(2 * j) * h = (2 * j' + 1) * h" by (simp add: assms(1) algebra_simps)
    then have "2 * j = 2 * j' + 1 \<or> h = 0" by (simp only: mult_cancel2)
    with assms(2) show False by presburger
  qed
  then show ?thesis by (auto simp: set_grid set_mids)
qed

lemma set_refine:
  assumes "g = 2 * h"
  shows "set (grid g n) \<union> set (mids g h 0 n) = set (grid h (2 * n))"
proof (intro set_eqI iffI)
  fix x assume "x \<in> set (grid g n) \<union> set (mids g h 0 n)"
  then consider j where "x = j * g" "j \<le> n" | j where "x = j * g + h" "j < n"
    by (auto simp: set_grid set_mids)
  then show "x \<in> set (grid h (2 * n))"
  proof cases
    case 1
    then have "x = (2 * j) * h" "2 * j \<le> 2 * n" by (simp_all add: assms)
    then show ?thesis unfolding set_grid by blast
  next
    case 2
    then have "x = (2 * j + 1) * h" "2 * j + 1 \<le> 2 * n" by (simp_all add: assms)
    then show ?thesis unfolding set_grid by blast
  qed
next
  fix x assume "x \<in> set (grid h (2 * n))"
  then obtain i where i: "x = i * h" "i \<le> 2 * n" by (auto simp: set_grid)
  show "x \<in> set (grid g n) \<union> set (mids g h 0 n)"
  proof (cases "even i")
    case True
    then obtain j where "i = 2 * j" by (auto elim: evenE)
    with i have "x = j * g" "j \<le> n" by (simp_all add: assms)
    then show ?thesis by (auto simp: set_grid)
  next
    case False
    then obtain j where "i = 2 * j + 1" by (auto elim: oddE)
    with i have "x = j * g + h" "j < n" by (simp_all add: assms)
    then show ?thesis by (auto simp: set_mids)
  qed
qed

lemma sort_refine:
  assumes "g = 2 * h" and "0 < h"
  shows "sort (grid g n @ mids g h 0 n) = grid h (2 * n)"
proof (rule sorted_distinct_set_unique)
  show "sorted (sort (grid g n @ mids g h 0 n))" by simp
  have "distinct (grid g n)"
    using sorted_grid[of g n] assms by (simp add: strict_sorted_iff)
  with assms show "distinct (sort (grid g n @ mids g h 0 n))"
    using grid_mids_disjoint[OF assms, of n 0 n] by (simp add: distinct_mids)
  show "sorted (grid h (2 * n))" "distinct (grid h (2 * n))"
    using sorted_grid[OF assms(2), of "2 * n"] by (simp_all add: strict_sorted_iff)
  show "set (sort (grid g n @ mids g h 0 n)) = set (grid h (2 * n))"
    using set_refine[OF assms(1), of n] by simp
qed


lemma mix_round_grid:
  assumes occ: "occupied_positions st = grid g n" and g: "g = 2 * h" and h: "0 < h"
    and len: "length (mixed_buffer st) = n * g + 1"
    and zero: "\<forall>p < length (mixed_buffer st).
                 p \<notin> set (occupied_positions st) \<longrightarrow> mixed_buffer st ! p = 0"
  shows "\<exists>buf'.
           scan_pairs input_bits (occupied_positions st) [0 ..< length (occupied_positions st) - 1]
               (mixed_buffer st, input_idx st, []) =
             Inr (buf', input_idx st + min n (length input_bits - input_idx st),
                  mids g h 0 (min n (length input_bits - input_idx st)))
           \<and> mix_round input_bits st =
               Inr \<lparr>mixed_buffer = buf',
                    input_idx = input_idx st + min n (length input_bits - input_idx st),
                    occupied_positions =
                      sort (grid g n @ mids g h 0 (min n (length input_bits - input_idx st)))\<rparr>
           \<and> length buf' = length (mixed_buffer st)
           \<and> (\<forall>p < length (mixed_buffer st).
                 p \<notin> set (mids g h 0 (min n (length input_bits - input_idx st))) \<longrightarrow>
                 buf' ! p = mixed_buffer st ! p)"
proof -
  have z: "\<forall>j. 0 \<le> j \<and> j < n \<longrightarrow> mixed_buffer st ! (j * g + h) = 0"
  proof (intro allI impI)
    fix j assume j: "0 \<le> j \<and> j < n"
    then have "j * g + g \<le> n * g"
      by (metis Suc_leI add.commute mult_Suc mult_le_mono1)
    with g h have lt: "j * g + h < length (mixed_buffer st)" using len by simp
    have "j * g + h \<in> set (mids g h 0 n)" using j by (auto simp: set_mids)
    with grid_mids_disjoint[OF g h, of n 0 n] have "j * g + h \<notin> set (grid g n)" by blast
    with zero lt occ show "mixed_buffer st ! (j * g + h) = 0" by simp
  qed
  from scan_pairs_grid[OF g h len _ z, of input_bits "input_idx st" "[]"]
  obtain buf' where
    sc: "scan_pairs input_bits (grid g n) [0 ..< n] (mixed_buffer st, input_idx st, []) =
           Inr (buf', input_idx st + min n (length input_bits - input_idx st),
                mids g h 0 (min n (length input_bits - input_idx st)))"
    and lb: "length buf' = length (mixed_buffer st)"
    and same: "\<forall>p < length (mixed_buffer st).
                 p \<notin> set (mids g h 0 (min n (length input_bits - input_idx st))) \<longrightarrow>
                 buf' ! p = mixed_buffer st ! p"
    by auto
  have n: "length (occupied_positions st) - 1 = n" by (simp add: occ length_grid)
  have "mix_round input_bits st =
          Inr \<lparr>mixed_buffer = buf',
               input_idx = input_idx st + min n (length input_bits - input_idx st),
               occupied_positions =
                 sort (grid g n @ mids g h 0 (min n (length input_bits - input_idx st)))\<rparr>"
    unfolding mix_round_def n unfolding occ sc by simp
  with sc lb same show ?thesis unfolding n unfolding occ by blast
qed


lemma round_powers:
  assumes "2 \<le> step" and "step \<le> steps"
  shows "(2::nat) ^ (steps + 1 - step) = 2 * 2 ^ (steps - step)"
    and "(2::nat) ^ (step - 2) * 2 ^ (steps + 1 - step) = 2 ^ (steps - 1)"
    and "2 * (2::nat) ^ (step - 2) = 2 ^ (step + 1 - 2)"
    and "steps + 1 - (step + 1) = steps - step"
proof -
  from assms have "steps + 1 - step = Suc (steps - step)" by simp
  then show "(2::nat) ^ (steps + 1 - step) = 2 * 2 ^ (steps - step)" by simp
  from assms have "step - 2 + (steps + 1 - step) = steps - 1" by simp
  then show "(2::nat) ^ (step - 2) * 2 ^ (steps + 1 - step) = 2 ^ (steps - 1)"
    by (simp add: power_add[symmetric])
  from assms have "step + 1 - 2 = Suc (step - 2)" by simp
  then show "2 * (2::nat) ^ (step - 2) = 2 ^ (step + 1 - 2)" by simp
  show "steps + 1 - (step + 1) = steps - step" by simp
qed

lemma mix_inv_round:
  assumes inv: "mix_inv input_bits steps step st" and le: "step \<le> steps"
    and guard: "step = 2 \<or> input_idx st < length input_bits"
  shows "\<exists>buf' idx' new_positions.
           scan_pairs input_bits (occupied_positions st)
               [0 ..< length (occupied_positions st) - 1]
               (mixed_buffer st, input_idx st, []) = Inr (buf', idx', new_positions)
           \<and> mix_round input_bits st =
               Inr \<lparr>mixed_buffer = buf', input_idx = idx',
                    occupied_positions = sort (occupied_positions st @ new_positions)\<rparr>
           \<and> mix_inv input_bits steps (step + 1)
               \<lparr>mixed_buffer = buf', input_idx = idx',
                occupied_positions = sort (occupied_positions st @ new_positions)\<rparr>
           \<and> distinct new_positions
           \<and> set new_positions \<inter> set (occupied_positions st) = {}
           \<and> (\<forall>p\<in>set new_positions. \<exists>i. i + 1 < length (occupied_positions st) \<and>
                 p = (occupied_positions st ! i + occupied_positions st ! (i + 1)) div 2)
           \<and> (\<forall>p < length (mixed_buffer st).
                 p \<notin> set new_positions \<longrightarrow> buf' ! p = mixed_buffer st ! p)"
proof -
  define g :: nat where "g = 2 ^ (steps + 1 - step)"
  define h :: nat where "h = 2 ^ (steps - step)"
  define n :: nat where "n = 2 ^ (step - 2)"
  define t where "t = min n (length input_bits - input_idx st)"
  from inv have s2: "2 \<le> step" by (simp add: mix_inv_def)
  note pw = round_powers[OF s2 le]
  have g: "g = 2 * h" unfolding g_def h_def by (rule pw(1))
  have h: "0 < h" and gpos: "0 < g" by (simp_all add: g_def h_def)
  have ng: "n * g = 2 ^ (steps - 1)" unfolding n_def g_def by (rule pw(2))
  from inv guard have occ: "occupied_positions st = grid g n"
    by (simp add: mix_inv_def g_def n_def)
  from inv have len: "length (mixed_buffer st) = n * g + 1"
    by (simp add: mix_inv_def ng)
  from inv have zero: "\<forall>p < length (mixed_buffer st).
      p \<notin> set (occupied_positions st) \<longrightarrow> mixed_buffer st ! p = 0"
    by (simp add: mix_inv_def)
  from mix_round_grid[OF occ g h len zero, of input_bits, folded t_def]
  obtain buf' where
    sc: "scan_pairs input_bits (occupied_positions st)
           [0 ..< length (occupied_positions st) - 1]
           (mixed_buffer st, input_idx st, []) = Inr (buf', input_idx st + t, mids g h 0 t)"
    and rd: "mix_round input_bits st =
               Inr \<lparr>mixed_buffer = buf', input_idx = input_idx st + t,
                    occupied_positions = sort (grid g n @ mids g h 0 t)\<rparr>"
    and lb: "length buf' = length (mixed_buffer st)"
    and same: "\<forall>p < length (mixed_buffer st).
                 p \<notin> set (mids g h 0 t) \<longrightarrow> buf' ! p = mixed_buffer st ! p"
    by blast
  let ?occ' = "sort (grid g n @ mids g h 0 t)"
  let ?st' = "\<lparr>mixed_buffer = buf', input_idx = input_idx st + t, occupied_positions = ?occ'\<rparr>"
  have tn: "t \<le> n" by (simp add: t_def)
  have dis: "set (mids g h 0 t) \<inter> set (grid g n) = {}"
    using grid_mids_disjoint[OF g h, of n 0 t] by blast
  have dist: "distinct (mids g h 0 t)" using gpos by (rule distinct_mids)
  have dgrid: "distinct (grid g n)"
    using sorted_grid[OF gpos, of n] by (simp add: strict_sorted_iff)
  have sorted': "sorted_wrt (<) ?occ'"
    using dis dist dgrid by (auto simp: strict_sorted_iff)
  have midle: "p < n * g" if "p \<in> set (mids g h 0 t)" for p
  proof -
    from that obtain j where j: "p = j * g + h" "j < t" by (auto simp: set_mids)
    with tn have "j * g + g \<le> n * g"
      by (metis Suc_leI add.commute mult_Suc mult_le_mono1 less_le_trans)
    with j g h show ?thesis by simp
  qed
  have sub: "set ?occ' \<subseteq> {0 .. 2 ^ (steps - 1)}"
  proof
    fix p assume "p \<in> set ?occ'"
    then consider "p \<in> set (grid g n)" | "p \<in> set (mids g h 0 t)" by auto
    then show "p \<in> {0 .. 2 ^ (steps - 1)}"
    proof cases
      case 1
      then obtain j where "p = j * g" "j \<le> n" by (auto simp: set_grid)
      then have "p \<le> n * g" by simp
      then show ?thesis by (simp add: ng)
    next
      case 2
      from midle[OF this] show ?thesis by (simp add: ng)
    qed
  qed
  have zin: "0 \<in> set ?occ'" and lin: "2 ^ (steps - 1) \<in> set ?occ'"
  proof -
    have "0 * g \<in> set (grid g n)" unfolding set_grid by blast
    then show "0 \<in> set ?occ'" by simp
    have "n * g \<in> set (grid g n)" unfolding set_grid by blast
    then show "2 ^ (steps - 1) \<in> set ?occ'" by (simp add: ng)
  qed
  have zero': "\<forall>p < length buf'. p \<notin> set ?occ' \<longrightarrow> buf' ! p = 0"
  proof (intro allI impI)
    fix p assume p: "p < length buf'" "p \<notin> set ?occ'"
    then have "p \<notin> set (mids g h 0 t)" "p \<notin> set (occupied_positions st)"
      by (simp_all add: occ)
    with same zero p(1) lb show "buf' ! p = 0" by simp
  qed
  have grid': "?occ' = grid (2 ^ (steps + 1 - (step + 1))) (2 ^ (step + 1 - 2))"
    if "input_idx st + t < length input_bits"
  proof -
    from that have "t = n" by (simp add: t_def min_def split: if_splits)
    then have "?occ' = grid h (2 * n)" using sort_refine[OF g h, of n] by simp
    then show ?thesis by (simp only: h_def n_def pw(3) pw(4))
  qed
  have inv': "mix_inv input_bits steps (step + 1) ?st'"
    unfolding mix_inv_def
    using s2 le lb inv sorted' sub zin lin zero' grid'
    by (simp add: mix_inv_def)
  have mp: "\<forall>p\<in>set (mids g h 0 t). \<exists>i. i + 1 < length (occupied_positions st) \<and>
              p = (occupied_positions st ! i + occupied_positions st ! (i + 1)) div 2"
  proof
    fix p assume "p \<in> set (mids g h 0 t)"
    then obtain j where j: "p = j * g + h" "j < t" by (auto simp: set_mids)
    with tn have jn: "j < n" by simp
    have "(grid g n ! j + grid g n ! (j + 1)) div 2 = j * g + h"
      using jn by (simp add: grid_nth g algebra_simps)
    with j jn show "\<exists>i. i + 1 < length (occupied_positions st) \<and>
        p = (occupied_positions st ! i + occupied_positions st ! (i + 1)) div 2"
      by (intro exI[of _ j]) (simp add: occ length_grid)
  qed
  from sc rd inv' dist dis mp same show ?thesis
    unfolding occ by blast
qed

lemma mix_init_zero:
  assumes "mix_init input_bits buffer_size = Inr st" and "0 < buffer_size"
  shows "\<forall>p < buffer_size. p \<noteq> 0 \<and> p \<noteq> buffer_size - 1 \<longrightarrow> mixed_buffer st ! p = 0"
  using assms
  by (auto simp: mix_init_def assign_item_def getitem_def setitem_def
      split: if_splits)

lemma mix_inv_init:
  assumes "1 < steps" and "mix_init input_bits (2 ^ (steps - 1) + 1) = Inr st"
  shows "mix_inv input_bits steps 2 st"
proof -
  let ?m = "2 ^ (steps - 1) + 1 :: nat"
  from mix_init_total[of ?m input_bits] assms(2)
  have st: "length (mixed_buffer st) = ?m" "occupied_positions st = [0, ?m - 1]"
    by auto
  from mix_init_zero[OF assms(2)]
  have z: "\<forall>p < ?m. p \<noteq> 0 \<and> p \<noteq> ?m - 1 \<longrightarrow> mixed_buffer st ! p = 0" by simp
  have gr: "grid (2 ^ (steps + 1 - 2)) (2 ^ (2 - 2)) = [0, 2 ^ (steps - 1)]"
    using assms(1) by (simp add: grid_def)
  show ?thesis
    unfolding mix_inv_def gr using assms(1) st z by simp
qed

lemma mix_reach_inv:
  assumes "1 < steps" and "mix_reach input_bits steps step st"
  shows "mix_inv input_bits steps step st"
  using assms(2)
proof (induction rule: mix_reach.induct)
  case (start st)
  with assms(1) show ?case by (intro mix_inv_init)
next
  case (round step st st')
  from mix_inv_round[OF round.IH round.hyps(2) round.hyps(3)] round.hyps(4)
  show ?case by auto
qed

lemma mix_loop_reach:
  assumes "mix_reach input_bits steps step st"
    and "step = 2 \<or> input_idx st < length input_bits"
    and "mix_loop input_bits steps step st = Inr st'"
  shows "\<exists>step'. mix_reach input_bits steps step' st'"
  using assms
proof (induction input_bits steps step st rule: mix_loop.induct)
  case (1 input_bits steps step st)
  show ?case
  proof (cases "steps < step")
    case True
    with "1.prems"(3) have "st' = st" by simp
    with "1.prems"(1) show ?thesis by blast
  next
    case False
    then have le: "step \<le> steps" by simp
    from "1.prems"(3) False obtain st1 where
      st1: "mix_round input_bits st = Inr st1"
      by (subst (asm) mix_loop.simps) (auto split: sum.splits)
    from mix_reach.round[OF "1.prems"(1) le "1.prems"(2) st1]
    have r1: "mix_reach input_bits steps (step + 1) st1" .
    show ?thesis
    proof (cases "length input_bits \<le> input_idx st1")
      case True
      with "1.prems"(3) False st1 have "st' = st1"
        by (subst (asm) mix_loop.simps) simp
      with r1 show ?thesis by blast
    next
      case nb: False
      with "1.prems"(3) False st1 have "mix_loop input_bits steps (step + 1) st1 = Inr st'"
        by (subst (asm) mix_loop.simps) simp
      from "1.IH"[OF False st1 nb r1 _ this] nb show ?thesis by simp
    qed
  qed
qed

lemma mix_bits_reach:
  assumes "1 < steps" and "mix_bits input_bits steps = Inr buf"
  shows "\<exists>step st. mix_reach input_bits steps step st \<and> mixed_buffer st = buf"
proof -
  let ?m = "2 ^ (steps - 1) + 1 :: nat"
  from mix_init_total[of ?m input_bits] obtain st0 where
    i: "mix_init input_bits ?m = Inr st0" and l0: "length (mixed_buffer st0) = ?m"
    and o0: "occupied_positions st0 = [0, ?m - 1]" by auto
  then have "mix_wf st0" by (simp add: mix_wf_def)
  from mix_loop_total[OF this, of input_bits steps 2] obtain st where
    l: "mix_loop input_bits steps 2 st0 = Inr st" by blast
  have "mix_bits input_bits steps = Inr (mixed_buffer st)"
    using assms(1) i l by (simp add: mix_bits_def Let_def del: mix_loop.simps)
  with assms(2) have b: "mixed_buffer st = buf" by simp
  from mix_loop_reach[OF mix_reach.start[OF i] _ l] b show ?thesis by auto
qed

text \<open>
  C5. Throughout \<open>_mix_bits\<close> for \<open>steps > 1\<close>, in every state the loop passes
  through, the list of filled positions is strictly increasing, lies in \<open>[0, m - 1]\<close>
  and contains \<open>0\<close> and \<open>m - 1\<close>, and every slot outside it is still zero. Every round
  that runs returns without raising, and the positions it fills are distinct midpoints of
  neighbouring filled positions, none of them filled before; all other slots keep their
  value, so no placed bit is overwritten.
\<close>

theorem filled_positions_invariant:
  assumes "1 < steps" and "mix_reach input_bits steps step st"
  shows "let m = 2 ^ (steps - 1) + 1; occ = occupied_positions st in
         length (mixed_buffer st) = m
         \<and> sorted_wrt (<) occ
         \<and> set occ \<subseteq> {0 .. m - 1}
         \<and> 0 \<in> set occ
         \<and> m - 1 \<in> set occ
         \<and> (\<forall>p < m. p \<notin> set occ \<longrightarrow> mixed_buffer st ! p = 0)
         \<and> (step \<le> steps \<and> (step = 2 \<or> input_idx st < length input_bits) \<longrightarrow>
              (\<exists>buf' idx' new_positions.
                 scan_pairs input_bits occ [0 ..< length occ - 1]
                     (mixed_buffer st, input_idx st, []) = Inr (buf', idx', new_positions)
                 \<and> mix_round input_bits st =
                     Inr \<lparr>mixed_buffer = buf', input_idx = idx',
                          occupied_positions = sort (occ @ new_positions)\<rparr>
                 \<and> distinct new_positions
                 \<and> set new_positions \<inter> set occ = {}
                 \<and> (\<forall>p\<in>set new_positions. \<exists>i. i + 1 < length occ \<and>
                       p = (occ ! i + occ ! (i + 1)) div 2)
                 \<and> (\<forall>p < m. p \<notin> set new_positions \<longrightarrow> buf' ! p = mixed_buffer st ! p)))"
proof -
  from mix_reach_inv[OF assms] have inv: "mix_inv input_bits steps step st" .
  have round: "\<exists>buf' idx' new_positions.
      scan_pairs input_bits (occupied_positions st) [0 ..< length (occupied_positions st) - 1]
          (mixed_buffer st, input_idx st, []) = Inr (buf', idx', new_positions)
      \<and> mix_round input_bits st =
          Inr \<lparr>mixed_buffer = buf', input_idx = idx',
               occupied_positions = sort (occupied_positions st @ new_positions)\<rparr>
      \<and> distinct new_positions
      \<and> set new_positions \<inter> set (occupied_positions st) = {}
      \<and> (\<forall>p\<in>set new_positions. \<exists>i. i + 1 < length (occupied_positions st) \<and>
            p = (occupied_positions st ! i + occupied_positions st ! (i + 1)) div 2)
      \<and> (\<forall>p < 2 ^ (steps - 1) + 1.
            p \<notin> set new_positions \<longrightarrow> buf' ! p = mixed_buffer st ! p)"
    if "step \<le> steps" and "step = 2 \<or> input_idx st < length input_bits"
  proof -
    from inv have "length (mixed_buffer st) = 2 ^ (steps - 1) + 1" by (simp add: mix_inv_def)
    with mix_inv_round[OF inv that] show ?thesis by auto
  qed
  from inv round show ?thesis
    unfolding Let_def mix_inv_def by simp
qed

theorem filled_positions_invariant_witness:
  "(1::nat) < 3
   \<and> mix_reach [0, 1, 1, 0, 1, 1, 0, 1] 3 3
       \<lparr>mixed_buffer = [0, 0, 1, 0, 1], input_idx = 3, occupied_positions = [0, 2, 4]\<rparr>
   \<and> sorted_wrt (<) [0, 2, 4 :: nat]
   \<and> (3::nat) \<le> 3
   \<and> (3::nat) < length [0, 1, 1, 0, 1, 1, 0, 1 :: uint8]
   \<and> (\<exists>buf' idx' new_positions.
         scan_pairs [0, 1, 1, 0, 1, 1, 0, 1] [0, 2, 4] [0 ..< length [0, 2, 4 :: nat] - 1]
           ([0, 0, 1, 0, 1], 3, []) = Inr (buf', idx', new_positions)
         \<and> distinct new_positions
         \<and> set new_positions \<inter> set [0, 2, 4] = {})"
proof -
  let ?bits = "[0, 1, 1, 0, 1, 1, 0, 1] :: uint8 list"
  let ?ini = "\<lparr>mixed_buffer = [0, 0, 0, 0, 1], input_idx = 2, occupied_positions = [0, 4]\<rparr>"
  let ?aft = "\<lparr>mixed_buffer = [0, 0, 1, 0, 1], input_idx = 3, occupied_positions = [0, 2, 4]\<rparr>"
  have s: "(1::nat) < 3" by simp
  have i: "mix_init ?bits (2 ^ (3 - 1) + 1) = Inr ?ini" by code_simp
  have rd: "mix_round ?bits ?ini = Inr ?aft" by code_simp
  have "mix_reach ?bits 3 (2 + 1) ?aft"
    by (rule mix_reach.round[OF mix_reach.start[OF i] _ _ rd]) simp_all
  then have r: "mix_reach ?bits 3 3 ?aft" by simp
  have g: "(3::nat) \<le> 3 \<and> ((3::nat) = 2 \<or> input_idx ?aft < length ?bits)" by simp
  from filled_positions_invariant[OF s r] g
  have "sorted_wrt (<) [0, 2, 4 :: nat]"
    and "\<exists>buf' idx' new_positions.
         scan_pairs ?bits [0, 2, 4] [0 ..< length [0, 2, 4 :: nat] - 1]
           ([0, 0, 1, 0, 1], 3, []) = Inr (buf', idx', new_positions)
         \<and> distinct new_positions
         \<and> set new_positions \<inter> set [0, 2, 4] = {}"
    unfolding Let_def by (simp, fastforce)
  with s r show ?thesis by simp
qed

end
